theory Spec2Isabelle
  imports Complex_Main "HOL-Library.Sublist"
begin

section \<open>Strings\<close>

text \<open>
  A Python \<open>str\<close> is modelled as a \<open>string\<close> whose characters are the code points
  0..255. The character predicates below are Python's \<open>str.isspace\<close>, the \<open>re\<close>
  module's \<open>\s\<close>, \<open>\d\<close>, \<open>\w\<close> and \<open>str.lower\<close> on that range.
\<close>

definition is_space :: "char \<Rightarrow> bool" where
  "is_space c = (let n = (of_char c :: nat)
     in (9 \<le> n \<and> n \<le> 13) \<or> (28 \<le> n \<and> n \<le> 32) \<or> n = 133 \<or> n = 160)"

definition is_digit :: "char \<Rightarrow> bool" where
  "is_digit c = (let n = (of_char c :: nat) in 48 \<le> n \<and> n \<le> 57)"

definition is_word :: "char \<Rightarrow> bool" where
  "is_word c = (let n = (of_char c :: nat)
     in (48 \<le> n \<and> n \<le> 57) \<or> (65 \<le> n \<and> n \<le> 90) \<or> n = 95 \<or> (97 \<le> n \<and> n \<le> 122)
        \<or> n = 170 \<or> n = 178 \<or> n = 179 \<or> n = 181 \<or> n = 185 \<or> n = 186
        \<or> (188 \<le> n \<and> n \<le> 190) \<or> (192 \<le> n \<and> n \<le> 214)
        \<or> (216 \<le> n \<and> n \<le> 246) \<or> (248 \<le> n \<and> n \<le> 255))"

definition lower_char :: "char \<Rightarrow> char" where
  "lower_char c = (let n = (of_char c :: nat)
     in if (65 \<le> n \<and> n \<le> 90) \<or> (192 \<le> n \<and> n \<le> 222 \<and> n \<noteq> 215)
        then char_of (n + 32) else c)"

definition lower :: "string \<Rightarrow> string" where
  "lower s = map lower_char s"

definition strip :: "string \<Rightarrow> string" where
  "strip s = rev (dropWhile is_space (rev (dropWhile is_space s)))"

text \<open>\<open>str.split()\<close> with no argument: the maximal runs of non-whitespace characters.\<close>

fun split_acc :: "string \<Rightarrow> string \<Rightarrow> string list" where
  "split_acc cur [] = (if cur = [] then [] else [cur])"
| "split_acc cur (c # cs) =
     (if is_space c then (if cur = [] then split_acc [] cs else cur # split_acc [] cs)
      else split_acc (cur @ [c]) cs)"

definition split :: "string \<Rightarrow> string list" where
  "split s = split_acc [] s"

text \<open>\<open>int(s)\<close> on a string of decimal digits.\<close>

definition digit_val :: "char \<Rightarrow> int" where
  "digit_val c = int (of_char c) - 48"

definition int_of_digits :: "string \<Rightarrow> int" where
  "int_of_digits s = foldl (\<lambda>acc c. 10 * acc + digit_val c) 0 s"

section \<open>Regular expressions\<close>

text \<open>
  The fragment of Python's \<open>re\<close> syntax that the program's patterns use. \<open>Star\<close> and
  \<open>Plus\<close> are the greedy \<open>\s*\<close> and \<open>\s+\<close> (the program repeats nothing but a
  character class), \<open>Opt\<close> is the greedy \<open>?\<close>, \<open>WordB\<close> is \<open>\b\<close>, \<open>Eos\<close> is \<open>$\<close>
  and \<open>Cap\<close> is the group that the caller reads back (group 1, named \<open>year\<close> in one
  pattern). Groups that are never read are plain nesting.
\<close>

datatype cclass = Space | Digit

datatype regex =
    Eps
  | Chr char
  | Cls cclass
  | Seq regex regex
  | Alt regex regex
  | Opt regex
  | Star cclass
  | Plus cclass
  | WordB
  | Eos
  | Cap regex

fun in_class :: "cclass \<Rightarrow> char \<Rightarrow> bool" where
  "in_class Space c = is_space c"
| "in_class Digit c = is_digit c"

definition word_boundary :: "string \<Rightarrow> nat \<Rightarrow> bool" where
  "word_boundary s i =
     ((0 < i \<and> is_word (s ! (i - 1))) \<noteq> (i < length s \<and> is_word (s ! i)))"

definition at_end :: "string \<Rightarrow> nat \<Rightarrow> bool" where
  "at_end s i = (i = length s \<or> (Suc i = length s \<and> s ! i = CHR 0x0A))"

definition run :: "cclass \<Rightarrow> string \<Rightarrow> nat \<Rightarrow> nat" where
  "run k s i = length (takeWhile (in_class k) (drop i s))"

type_synonym mstate = "nat \<times> (nat \<times> nat) option"

text \<open>
  The backtracking matcher: \<open>rmatch r s (i, g)\<close> lists, in the order in which the engine
  tries them, the states in which \<open>r\<close> can stop when started at position \<open>i\<close> of \<open>s\<close>.
  A state is the position reached and the span of the captured group, if set.
\<close>

fun rmatch :: "regex \<Rightarrow> string \<Rightarrow> mstate \<Rightarrow> mstate list" where
  "rmatch Eps s st = [st]"
| "rmatch (Chr c) s (i, g) = (if i < length s \<and> s ! i = c then [(Suc i, g)] else [])"
| "rmatch (Cls k) s (i, g) = (if i < length s \<and> in_class k (s ! i) then [(Suc i, g)] else [])"
| "rmatch (Seq r1 r2) s st = concat (map (rmatch r2 s) (rmatch r1 s st))"
| "rmatch (Alt r1 r2) s st = rmatch r1 s st @ rmatch r2 s st"
| "rmatch (Opt r) s st = rmatch r s st @ [st]"
| "rmatch (Star k) s (i, g) = map (\<lambda>j. (j, g)) (rev [i ..< Suc (i + run k s i)])"
| "rmatch (Plus k) s (i, g) = map (\<lambda>j. (j, g)) (rev [Suc i ..< Suc (i + run k s i)])"
| "rmatch WordB s (i, g) = (if word_boundary s i then [(i, g)] else [])"
| "rmatch Eos s (i, g) = (if at_end s i then [(i, g)] else [])"
| "rmatch (Cap r) s (i, g) = map (\<lambda>(j, _). (j, Some (i, j))) (rmatch r s (i, g))"

text \<open>A pattern with no captured group in it.\<close>

fun nocap :: "regex \<Rightarrow> bool" where
  "nocap (Cap r) = False"
| "nocap (Seq r1 r2) = (nocap r1 \<and> nocap r2)"
| "nocap (Alt r1 r2) = (nocap r1 \<and> nocap r2)"
| "nocap (Opt r) = nocap r"
| "nocap r = True"

text \<open>A match: start, end and the span of the captured group.\<close>

type_synonym rematch = "nat \<times> nat \<times> (nat \<times> nat) option"

primrec search_at :: "regex \<Rightarrow> string \<Rightarrow> nat list \<Rightarrow> rematch option" where
  "search_at r s [] = None"
| "search_at r s (i # starts) =
     (case rmatch r s (i, None) of
        [] \<Rightarrow> search_at r s starts
      | (j, g) # _ \<Rightarrow> Some (i, j, g))"

text \<open>\<open>re.search(pattern, s)\<close>: the first match at the leftmost start that has one.\<close>

definition re_search :: "regex \<Rightarrow> string \<Rightarrow> rematch option" where
  "re_search r s = search_at r s [0 ..< Suc (length s)]"

definition found :: "regex \<Rightarrow> string \<Rightarrow> bool" where
  "found r s = (re_search r s \<noteq> None)"

text \<open>\<open>match.group(1)\<close>, for a match whose group took part in it.\<close>

definition group1 :: "string \<Rightarrow> rematch \<Rightarrow> string" where
  "group1 s m = (case snd (snd m) of None \<Rightarrow> [] | Some (a, b) \<Rightarrow> take (b - a) (drop a s))"

text \<open>
  \<open>re.sub(pattern, "", s)\<close>: every non-overlapping match, left to right, is cut out.
  After an empty match the scan copies one character and moves on.
\<close>

function sub_from :: "regex \<Rightarrow> string \<Rightarrow> nat \<Rightarrow> string" where
  "sub_from r s pos =
     (case search_at r s [pos ..< Suc (length s)] of
        None \<Rightarrow> drop pos s
      | Some (i, j, g) \<Rightarrow>
          (if pos \<le> i \<and> i < j \<and> j \<le> length s
           then take (i - pos) (drop pos s) @ sub_from r s j
           else if pos \<le> i \<and> i < length s
           then take (Suc i - pos) (drop pos s) @ sub_from r s (Suc i)
           else drop pos s))"
  by pat_completeness auto
termination
  by (relation "measure (\<lambda>(r, s, pos). length s - pos)") auto

declare sub_from.simps [simp del]

definition re_sub :: "regex \<Rightarrow> string \<Rightarrow> string" where
  "re_sub r s = sub_from r s 0"

primrec lit :: "string \<Rightarrow> regex" where
  "lit [] = Eps"
| "lit (c # cs) = Seq (Chr c) (lit cs)"

primrec seqs :: "regex list \<Rightarrow> regex" where
  "seqs [] = Eps"
| "seqs (r # rs) = Seq r (seqs rs)"

primrec alts :: "regex \<Rightarrow> regex list \<Rightarrow> regex" where
  "alts r [] = r"
| "alts r (q # qs) = Alt r (alts q qs)"

primrec rep :: "nat \<Rightarrow> regex \<Rightarrow> regex" where
  "rep 0 r = Eps"
| "rep (Suc n) r = Seq r (rep n r)"

section \<open>Title and year parsing\<close>

text \<open>The pattern \<open>\s*\((\d{4})\)\s*$\<close>.\<close>

definition year_pattern :: regex where
  "year_pattern = seqs [Star Space, Chr CHR ''('', Cap (rep 4 (Cls Digit)), Chr CHR '')'',
     Star Space, Eos]"

definition parse_movie_with_year :: "string \<Rightarrow> string \<times> int option" where
  "parse_movie_with_year movie_title =
     (case re_search year_pattern movie_title of
        Some m \<Rightarrow> (strip (re_sub year_pattern movie_title), Some (int_of_digits (group1 movie_title m)))
      | None \<Rightarrow> (strip movie_title, None))"

text \<open>The pattern \<open>\s+(?P<year>(19|20)\d{2})\s*$\<close>.\<close>

definition trailing_year_pattern :: regex where
  "trailing_year_pattern = seqs [Plus Space,
     Cap (Seq (Alt (lit ''19'') (lit ''20'')) (rep 2 (Cls Digit))), Star Space, Eos]"

text \<open>The test \<open>if year:\<close> is false for \<open>None\<close> and for the integer 0.\<close>

definition truthy :: "int option \<Rightarrow> bool" where
  "truthy year = (case year of None \<Rightarrow> False | Some y \<Rightarrow> y \<noteq> 0)"

definition parse_title_with_year :: "string \<Rightarrow> string \<times> int option" where
  "parse_title_with_year search =
     (let (title, year) = parse_movie_with_year search
      in if truthy year then (title, year)
         else (case re_search trailing_year_pattern search of
                 Some m \<Rightarrow> (strip (re_sub trailing_year_pattern search),
                            Some (int_of_digits (group1 search m)))
               | None \<Rightarrow> (strip search, None)))"

section \<open>Intent classification\<close>

text \<open>
  The character class of the quotation-mark test holds the straight double quote and four
  curly quotes; only the first is a code point below 256.
\<close>

definition quote_pattern :: regex where
  "quote_pattern = Chr (CHR 0x22)"

text \<open>The pattern \<open>\((19|20)\d{2}\)\<close>.\<close>

definition paren_year_pattern :: regex where
  "paren_year_pattern = seqs [Chr CHR ''('', Alt (lit ''19'') (lit ''20''), rep 2 (Cls Digit),
     Chr CHR '')'']"

text \<open>The pattern \<open>\b(19|20)\d{2}\b\<close>.\<close>

definition bare_year_pattern :: regex where
  "bare_year_pattern = seqs [WordB, Alt (lit ''19'') (lit ''20''), rep 2 (Cls Digit), WordB]"

definition word_pattern :: "string \<Rightarrow> regex" where
  "word_pattern w = seqs [WordB, lit w, WordB]"

text \<open>\<open>\bw(s)?\b\<close>: a word with an optional plural.\<close>

definition plural :: "string \<Rightarrow> regex" where
  "plural w = Seq (lit w) (Opt (Chr CHR ''s''))"

text \<open>
  The last pattern is written \<open>\b2000s|1990s|1980s|1970s|1960s|1950s\b\<close> in the source:
  alternation binds weakest, so the first \<open>\b\<close> belongs to \<open>2000s\<close> alone and the
  last to \<open>1950s\<close> alone.
\<close>

definition discovery_patterns :: "regex list" where
  "discovery_patterns =
    [word_pattern ''top'',
     word_pattern ''best'',
     word_pattern ''popular'',
     word_pattern ''trending'',
     seqs [WordB, lit ''recommend'',
           Opt (alts (lit ''ation'') [lit ''ations'', lit ''ed'', lit ''ing'']), WordB],
     seqs [WordB, lit ''suggest'',
           Opt (alts (lit ''ion'') [lit ''ions'', lit ''ed'', lit ''ing'']), WordB],
     word_pattern ''list'',
     word_pattern ''ranked'',
     word_pattern ''collection'',
     word_pattern ''theme'',
     seqs [WordB, alts (plural ''movie'') [plural ''film'', plural ''show'', lit ''series'',
           lit ''tv''], WordB],
     seqs [WordB, alts (lit ''similar to'') [lit ''like''], WordB],
     alts (Seq WordB (lit ''2000s'')) [lit ''1990s'', lit ''1980s'', lit ''1970s'', lit ''1960s'',
           Seq (lit ''1950s'') WordB]]"

definition is_specific_title_query :: "string \<Rightarrow> bool" where
  "is_specific_title_query search =
     (if search = [] then False
      else let search_lower = strip (lower search)
        in if found quote_pattern search then True
           else if found paren_year_pattern search then True
           else if list_ex (\<lambda>pattern. found pattern search_lower) discovery_patterns then False
           else if found bare_year_pattern search_lower then True
           else length (split search_lower) \<le> 6)"

text \<open>
  The enumeration \<open>ContentType\<close> is imported from \<open>app.models.enums\<close>, which is not among
  the sources; \<open>detect_user_intent\<close> uses its members \<open>MOVIE\<close> and \<open>SERIES\<close>.
\<close>

datatype ContentType = MOVIE | SERIES

definition movie_patterns :: "regex list" where
  "movie_patterns =
    [seqs [WordB, plural ''movie'', WordB],
     seqs [WordB, plural ''film'', WordB],
     word_pattern ''cinema'',
     seqs [WordB, plural ''flick'', WordB],
     seqs [WordB, plural ''motion picture'', WordB],
     seqs [WordB, plural ''feature film'', WordB],
     seqs [WordB, plural ''blockbuster'', WordB]]"

definition shows_pattern :: regex where
  "shows_pattern = seqs [WordB, plural ''show'', WordB]"

definition series_patterns :: "regex list" where
  "series_patterns =
    [seqs [WordB, lit ''tv'', Plus Space, plural ''show'', WordB],
     seqs [WordB, lit ''television'', Plus Space, plural ''show'', WordB],
     word_pattern ''television'',
     word_pattern ''series'',
     shows_pattern,
     seqs [WordB, lit ''tv'', Plus Space, lit ''series'', WordB],
     seqs [WordB, lit ''television'', Plus Space, lit ''series'', WordB],
     seqs [WordB, plural ''episode'', WordB],
     seqs [WordB, plural ''season'', WordB],
     seqs [WordB, plural ''sitcom'', WordB],
     seqs [WordB, plural ''drama'', Plus Space, lit ''series'', WordB],
     word_pattern ''miniseries'',
     seqs [WordB, lit ''documentary'', Plus Space, lit ''series'', WordB]]"

text \<open>The patterns \<open>\b(?:movie|film|cinema)\s+shows?\b\<close>, \<open>\bshow\s+me\b\<close> and
  \<open>\b(?:and|or)\b\<close>.\<close>

definition movie_show_pattern :: regex where
  "movie_show_pattern = seqs [WordB, alts (lit ''movie'') [lit ''film'', lit ''cinema''],
     Plus Space, plural ''show'', WordB]"

definition show_me_pattern :: regex where
  "show_me_pattern = seqs [WordB, lit ''show'', Plus Space, lit ''me'', WordB]"

definition and_or_pattern :: regex where
  "and_or_pattern = seqs [WordB, Alt (lit ''and'') (lit ''or''), WordB]"

definition series_hit :: "string \<Rightarrow> regex \<Rightarrow> bool" where
  "series_hit search_lower pattern =
     (if pattern = shows_pattern
      then found shows_pattern search_lower \<and> \<not> found movie_show_pattern search_lower
           \<and> \<not> found show_me_pattern search_lower
      else found pattern search_lower)"

definition detect_user_intent :: "string \<Rightarrow> ContentType option" where
  "detect_user_intent search =
     (if search = [] then None
      else let search_lower = lower search;
               movie_matches = length (filter (\<lambda>pattern. found pattern search_lower) movie_patterns);
               series_matches = length (filter (series_hit search_lower) series_patterns);
               has_mixed_content = (found and_or_pattern search_lower \<and> 0 < movie_matches
                                    \<and> 0 < series_matches)
        in if has_mixed_content then None
           else if 0 < movie_matches \<and> series_matches = 0 then Some MOVIE
           else if 0 < series_matches \<and> movie_matches = 0 then Some SERIES
           else None)"

section \<open>Sequence similarity\<close>

text \<open>
  \<open>difflib.SequenceMatcher(None, a, b).ratio()\<close> of the standard library, with no junk
  function and the automatic junk heuristic on: in a second sequence of 200 or more
  elements, an element that occurs more than \<open>n // 100 + 1\<close> times is popular and is
  left out of the index \<open>b2j\<close>.
\<close>

definition popular :: "string \<Rightarrow> char \<Rightarrow> bool" where
  "popular b c = (200 \<le> length b \<and> length b div 100 + 1 < count_list b c)"

definition b2j :: "string \<Rightarrow> char \<Rightarrow> nat list" where
  "b2j b c = (if popular b c then [] else filter (\<lambda>j. b ! j = c) [0 ..< length b])"

text \<open>With no junk function the set \<open>bjunk\<close> is empty.\<close>

definition isbjunk :: "char \<Rightarrow> bool" where
  "isbjunk c = False"

type_synonym block = "nat \<times> nat \<times> nat"

text \<open>\<open>j2len.get(j - 1, 0)\<close>: the key \<open>-1\<close> is never present.\<close>

definition j2lenget :: "(nat \<rightharpoonup> nat) \<Rightarrow> nat \<Rightarrow> nat" where
  "j2lenget j2len j = (if j = 0 then 0 else case j2len (j - 1) of None \<Rightarrow> 0 | Some v \<Rightarrow> v)"

text \<open>
  The loop over the positions \<open>j\<close> of \<open>a[i]\<close> in \<open>b\<close>. The start of the new best block
  is \<open>i - k + 1\<close>, written \<open>Suc i - k\<close> because \<open>k\<close> can be \<open>i + 1\<close>.
\<close>

fun inner_loop :: "(nat \<rightharpoonup> nat) \<Rightarrow> nat \<Rightarrow> nat \<Rightarrow> nat \<Rightarrow> nat list
    \<Rightarrow> (nat \<rightharpoonup> nat) \<times> block \<Rightarrow> (nat \<rightharpoonup> nat) \<times> block" where
  "inner_loop j2len i blo bhi [] st = st"
| "inner_loop j2len i blo bhi (j # js) (newj2len, besti, bestj, bestsize) =
     (if j < blo then inner_loop j2len i blo bhi js (newj2len, besti, bestj, bestsize)
      else if bhi \<le> j then (newj2len, besti, bestj, bestsize)
      else let k = j2lenget j2len j + 1
        in inner_loop j2len i blo bhi js
             (newj2len(j \<mapsto> k),
              if bestsize < k then (Suc i - k, Suc j - k, k) else (besti, bestj, bestsize)))"

fun outer_loop :: "string \<Rightarrow> string \<Rightarrow> nat \<Rightarrow> nat \<Rightarrow> nat list
    \<Rightarrow> (nat \<rightharpoonup> nat) \<times> block \<Rightarrow> block" where
  "outer_loop a b blo bhi [] (j2len, best) = best"
| "outer_loop a b blo bhi (i # rest) (j2len, best) =
     outer_loop a b blo bhi rest (inner_loop j2len i blo bhi (b2j b (a ! i)) (Map.empty, best))"

function extend_left :: "bool \<Rightarrow> string \<Rightarrow> string \<Rightarrow> nat \<Rightarrow> nat \<Rightarrow> block \<Rightarrow> block" where
  "extend_left junk a b alo blo (besti, bestj, bestsize) =
     (if alo < besti \<and> blo < bestj \<and> isbjunk (b ! (bestj - 1)) = junk
         \<and> a ! (besti - 1) = b ! (bestj - 1)
      then extend_left junk a b alo blo (besti - 1, bestj - 1, bestsize + 1)
      else (besti, bestj, bestsize))"
  by pat_completeness auto
termination
  by (relation "measure (\<lambda>(junk, a, b, alo, blo, besti, bestj, bestsize). besti)") auto

declare extend_left.simps [simp del]

function extend_right :: "bool \<Rightarrow> string \<Rightarrow> string \<Rightarrow> nat \<Rightarrow> nat \<Rightarrow> block \<Rightarrow> block" where
  "extend_right junk a b ahi bhi (besti, bestj, bestsize) =
     (if besti + bestsize < ahi \<and> bestj + bestsize < bhi \<and> isbjunk (b ! (bestj + bestsize)) = junk
         \<and> a ! (besti + bestsize) = b ! (bestj + bestsize)
      then extend_right junk a b ahi bhi (besti, bestj, bestsize + 1)
      else (besti, bestj, bestsize))"
  by pat_completeness auto
termination
  by (relation "measure (\<lambda>(junk, a, b, ahi, bhi, besti, bestj, bestsize). ahi - (besti + bestsize))")
    auto

declare extend_right.simps [simp del]

definition find_longest_match :: "string \<Rightarrow> string \<Rightarrow> nat \<Rightarrow> nat \<Rightarrow> nat \<Rightarrow> nat \<Rightarrow> block" where
  "find_longest_match a b alo ahi blo bhi =
     extend_right True a b ahi bhi
       (extend_left True a b alo blo
         (extend_right False a b ahi bhi
           (extend_left False a b alo blo
             (outer_loop a b blo bhi [alo ..< ahi] (Map.empty, alo, blo, 0)))))"

text \<open>
  The block that \<open>find_longest_match\<close> returns lies inside the window it was given. This
  is what makes the recursion of \<open>get_matching_blocks\<close> terminate.
\<close>

definition best_ok :: "nat \<Rightarrow> nat \<Rightarrow> nat \<Rightarrow> nat \<Rightarrow> block \<Rightarrow> bool" where
  "best_ok alo ahi blo bhi best =
     (case best of (i, j, k) \<Rightarrow>
        alo \<le> i \<and> blo \<le> j \<and> i + k \<le> max alo ahi \<and> j + k \<le> max blo bhi)"

definition row_ok :: "nat \<Rightarrow> nat \<Rightarrow> (nat \<rightharpoonup> nat) \<Rightarrow> bool" where
  "row_ok n blo j2len = (\<forall>j v. j2len j = Some v \<longrightarrow> v \<le> n \<and> v \<le> Suc j - blo \<and> blo \<le> j)"

lemma j2lenget_le:
  assumes "row_ok n blo j2len" and "blo \<le> j"
  shows "j2lenget j2len j \<le> n \<and> j2lenget j2len j \<le> j - blo"
proof (cases "j = 0")
  case True
  then show ?thesis by (simp add: j2lenget_def)
next
  case False
  show ?thesis
  proof (cases "j2len (j - 1)")
    case None
    with False show ?thesis by (simp add: j2lenget_def)
  next
    case (Some v)
    with assms(1) have "v \<le> n \<and> v \<le> Suc (j - 1) - blo"
      unfolding row_ok_def by blast
    with False Some show ?thesis by (simp add: j2lenget_def)
  qed
qed

lemma inner_loop_ok:
  assumes "row_ok (i - alo) blo j2len" and "alo \<le> i" and "i < ahi"
    and "row_ok (Suc i - alo) blo new" and "best_ok alo ahi blo bhi best"
    and "inner_loop j2len i blo bhi js (new, best) = (new', best')"
  shows "row_ok (Suc i - alo) blo new' \<and> best_ok alo ahi blo bhi best'"
  using assms(4-6)
proof (induction js arbitrary: new best)
  case Nil
  then show ?case by simp
next
  case (Cons j js)
  obtain bi bj bs where best: "best = (bi, bj, bs)" by (cases best) auto
  show ?case
  proof (cases "j < blo")
    case True
    with Cons best show ?thesis by simp
  next
    case lo: False
    show ?thesis
    proof (cases "bhi \<le> j")
      case True
      with Cons lo best show ?thesis by simp
    next
      case hi: False
      define k where "k = j2lenget j2len j + 1"
      from lo j2lenget_le[OF assms(1), of j]
      have kb: "k \<le> Suc i - alo" "k \<le> Suc j - blo" "0 < k"
        using assms(2) by (auto simp: k_def)
      have r: "row_ok (Suc i - alo) blo (new(j \<mapsto> k))"
        using Cons.prems(1) kb lo unfolding row_ok_def by auto
      have b: "best_ok alo ahi blo bhi (if bs < k then (Suc i - k, Suc j - k, k) else (bi, bj, bs))"
        using Cons.prems(2) kb lo hi assms(2,3) best unfolding best_ok_def by auto
      from Cons.prems(3) lo hi best
      have "inner_loop j2len i blo bhi js
              (new(j \<mapsto> k), if bs < k then (Suc i - k, Suc j - k, k) else (bi, bj, bs)) = (new', best')"
        by (auto simp: k_def Let_def split: if_splits)
      from Cons.IH[OF r b this] show ?thesis .
    qed
  qed
qed

lemma row_ok_empty: "row_ok n blo Map.empty"
  by (simp add: row_ok_def)

lemma outer_loop_ok:
  assumes "alo \<le> m" and "row_ok (m - alo) blo j2len" and "best_ok alo ahi blo bhi best"
  shows "best_ok alo ahi blo bhi (outer_loop a b blo bhi [m ..< ahi] (j2len, best))"
  using assms
proof (induction "ahi - m" arbitrary: m j2len best)
  case 0
  then show ?case by simp
next
  case (Suc n)
  then have lt: "m < ahi" by simp
  obtain new' best' where il: "inner_loop j2len m blo bhi (b2j b (a ! m)) (Map.empty, best) = (new', best')"
    by (cases "inner_loop j2len m blo bhi (b2j b (a ! m)) (Map.empty, best)") auto
  from inner_loop_ok[OF Suc.prems(2) Suc.prems(1) lt row_ok_empty Suc.prems(3) il]
  have ok: "row_ok (Suc m - alo) blo new'" "best_ok alo ahi blo bhi best'" by auto
  have "best_ok alo ahi blo bhi (outer_loop a b blo bhi [Suc m ..< ahi] (new', best'))"
    using Suc.hyps(2) Suc.prems(1) ok by (intro Suc.hyps(1)) auto
  with lt il show ?case by (simp add: upt_conv_Cons)
qed

lemma extend_left_ok:
  "best_ok alo ahi blo bhi best \<Longrightarrow> best_ok alo ahi blo bhi (extend_left junk a b alo blo best)"
proof (induction junk a b alo blo best rule: extend_left.induct)
  case (1 junk a b alo blo besti bestj bestsize)
  show ?case
  proof (cases "alo < besti \<and> blo < bestj \<and> isbjunk (b ! (bestj - 1)) = junk
         \<and> a ! (besti - 1) = b ! (bestj - 1)")
    case True
    have "best_ok alo ahi blo bhi (besti - 1, bestj - 1, bestsize + 1)"
      using "1.prems" True unfolding best_ok_def by auto
    from "1.IH"[OF True this] True show ?thesis by (subst extend_left.simps) simp
  next
    case False
    with "1.prems" show ?thesis by (subst extend_left.simps) auto
  qed
qed

lemma extend_right_ok:
  "best_ok alo ahi blo bhi best \<Longrightarrow> best_ok alo ahi blo bhi (extend_right junk a b ahi bhi best)"
proof (induction junk a b ahi bhi best rule: extend_right.induct)
  case (1 junk a b ahi bhi besti bestj bestsize)
  show ?case
  proof (cases "besti + bestsize < ahi \<and> bestj + bestsize < bhi \<and> isbjunk (b ! (bestj + bestsize)) = junk
         \<and> a ! (besti + bestsize) = b ! (bestj + bestsize)")
    case True
    have "best_ok alo ahi blo bhi (besti, bestj, bestsize + 1)"
      using "1.prems" True unfolding best_ok_def by auto
    from "1.IH"[OF True this] True show ?thesis by (subst extend_right.simps) simp
  next
    case False
    with "1.prems" show ?thesis by (subst extend_right.simps) auto
  qed
qed

lemma find_longest_match_ok:
  "best_ok alo ahi blo bhi (find_longest_match a b alo ahi blo bhi)"
proof -
  have "best_ok alo ahi blo bhi (alo, blo, 0)" by (simp add: best_ok_def)
  then have "best_ok alo ahi blo bhi (outer_loop a b blo bhi [alo ..< ahi] (Map.empty, alo, blo, 0))"
    by (intro outer_loop_ok) (simp_all add: row_ok_empty)
  then show ?thesis
    unfolding find_longest_match_def
    by (intro extend_right_ok extend_left_ok)
qed

text \<open>
  \<open>get_matching_blocks\<close> keeps a queue of windows; each window yields its longest block
  and the windows to the left and to the right of it. The blocks are then sorted, adjacent
  ones are merged and a block of size 0 is appended; \<open>ratio\<close> reads only the sum of the
  sizes, which none of these steps changes, so the blocks are listed here as found.
\<close>

function matching_blocks :: "string \<Rightarrow> string \<Rightarrow> nat \<Rightarrow> nat \<Rightarrow> nat \<Rightarrow> nat \<Rightarrow> block list" where
  "matching_blocks a b alo ahi blo bhi =
     (case find_longest_match a b alo ahi blo bhi of
        (i, j, k) \<Rightarrow>
          if k \<noteq> 0
          then (i, j, k)
               # (if alo < i \<and> blo < j then matching_blocks a b alo i blo j else [])
               @ (if i + k < ahi \<and> j + k < bhi then matching_blocks a b (i + k) ahi (j + k) bhi
                  else [])
          else [])"
  by pat_completeness auto
termination
proof (relation "measure (\<lambda>(a, b, alo, ahi, blo, bhi). ahi - alo)")
  show "wf (measure (\<lambda>(a, b, alo, ahi, blo, bhi). ahi - alo))"
    by simp
next
  fix a b :: string and alo ahi blo bhi i j k :: nat and y :: "nat \<times> nat"
  assume "(i, y) = find_longest_match a b alo ahi blo bhi" "(j, k) = y" "k \<noteq> 0"
    "alo < i \<and> blo < j"
  then have "find_longest_match a b alo ahi blo bhi = (i, j, k)" by simp
  with find_longest_match_ok[of alo ahi blo bhi a b] \<open>k \<noteq> 0\<close> \<open>alo < i \<and> blo < j\<close>
  show "((a, b, alo, i, blo, j), a, b, alo, ahi, blo, bhi)
      \<in> measure (\<lambda>(a, b, alo, ahi, blo, bhi). ahi - alo)"
    by (auto simp: best_ok_def max_def split: if_splits)
next
  fix a b :: string and alo ahi blo bhi i j k :: nat and y :: "nat \<times> nat"
  assume "(i, y) = find_longest_match a b alo ahi blo bhi" "(j, k) = y" "k \<noteq> 0"
    "i + k < ahi \<and> j + k < bhi"
  then have "find_longest_match a b alo ahi blo bhi = (i, j, k)" by simp
  with find_longest_match_ok[of alo ahi blo bhi a b] \<open>k \<noteq> 0\<close> \<open>i + k < ahi \<and> j + k < bhi\<close>
  show "((a, b, i + k, ahi, j + k, bhi), a, b, alo, ahi, blo, bhi)
      \<in> measure (\<lambda>(a, b, alo, ahi, blo, bhi). ahi - alo)"
    by (auto simp: best_ok_def max_def split: if_splits)
qed

declare matching_blocks.simps [simp del]

text \<open>
  \<open>ratio\<close> is \<open>2.0 * matches / length\<close>, or \<open>1.0\<close> when both sequences are empty. The
  model computes the quotient exactly, as a rational number; the program rounds it to a
  double. For strings that together have fewer than \<open>2^26\<close> characters the rounding
  changes neither the order of two scores nor the outcome of a comparison with one of the
  thresholds below: two different quotients are then more than \<open>2^-52\<close> apart.
\<close>

definition bsize :: "block \<Rightarrow> nat" where
  "bsize blk = (case blk of (i, j, k) \<Rightarrow> k)"

definition ratio :: "string \<Rightarrow> string \<Rightarrow> rat" where
  "ratio a b =
     (let matches = sum_list (map bsize (matching_blocks a b 0 (length a) 0 (length b)));
          len = length a + length b
      in if len \<noteq> 0 then 2 * of_nat matches / of_nat len else 1)"

text \<open>
  What the table \<open>j2len\<close> and the best block mean: an entry \<open>j \<mapsto> v\<close> before row \<open>n\<close>
  is a run of \<open>v\<close> equal elements that ends at \<open>a[n - 1]\<close> and \<open>b[j]\<close>, and a block
  \<open>(i, j, k)\<close> is \<open>k\<close> equal elements from \<open>a[i]\<close> and \<open>b[j]\<close> on.
\<close>

definition runs_end :: "string \<Rightarrow> string \<Rightarrow> nat \<Rightarrow> (nat \<rightharpoonup> nat) \<Rightarrow> bool" where
  "runs_end a b n j2len =
     (\<forall>j v. j2len j = Some v \<longrightarrow> v \<le> n \<and> v \<le> Suc j \<and> (\<forall>t < v. a ! (n - Suc t) = b ! (j - t)))"

definition best_valid :: "string \<Rightarrow> string \<Rightarrow> block \<Rightarrow> bool" where
  "best_valid a b best = (case best of (i, j, k) \<Rightarrow> \<forall>t < k. a ! (i + t) = b ! (j + t))"

section \<open>Fuzzy matching of search results\<close>

text \<open>
  A search result is a JSON object: a dictionary from strings to JSON values, kept as an
  association list in insertion order.
\<close>

datatype pyval =
    PNone
  | PBool bool
  | PInt int
  | PFloat rat
  | PStr string
  | PList "pyval list"
  | PDict "(string \<times> pyval) list"

type_synonym candidate = "(string \<times> pyval) list"

datatype error = AttributeError | KeyError | TypeError

text \<open>\<open>res.get(key, default)\<close>, \<open>res[key]\<close> and \<open>res[key] = value\<close>.\<close>

definition dict_get :: "candidate \<Rightarrow> string \<Rightarrow> pyval \<Rightarrow> pyval" where
  "dict_get res key dflt = (case map_of res key of None \<Rightarrow> dflt | Some v \<Rightarrow> v)"

definition dict_item :: "candidate \<Rightarrow> string \<Rightarrow> error + pyval" where
  "dict_item res key = (case map_of res key of None \<Rightarrow> Inl KeyError | Some v \<Rightarrow> Inr v)"

fun dict_set :: "candidate \<Rightarrow> string \<Rightarrow> pyval \<Rightarrow> candidate" where
  "dict_set [] key v = [(key, v)]"
| "dict_set ((k, w) # res) key v = (if k = key then (k, v) # res else (k, w) # dict_set res key v)"

text \<open>\<open>v.lower()\<close>: only a string has the method.\<close>

fun py_lower :: "pyval \<Rightarrow> error + string" where
  "py_lower (PStr s) = Inr (lower s)"
| "py_lower v = Inl AttributeError"

text \<open>
  Membership in the set \<open>seen_ids\<close> goes by hash and equality: numbers of any kind are
  equal when their values are, and lists and dictionaries cannot be hashed.
\<close>

datatype hkey = KNone | KNum rat | KStr string

fun hash_key :: "pyval \<Rightarrow> error + hkey" where
  "hash_key PNone = Inr KNone"
| "hash_key (PBool x) = Inr (KNum (if x then 1 else 0))"
| "hash_key (PInt n) = Inr (KNum (of_int n))"
| "hash_key (PFloat q) = Inr (KNum q)"
| "hash_key (PStr s) = Inr (KStr s)"
| "hash_key (PList xs) = Inl TypeError"
| "hash_key (PDict kvs) = Inl TypeError"

definition FUZZY_MATCH_THRESHOLD :: rat where
  "FUZZY_MATCH_THRESHOLD = 85 / 100"

definition RELAXED_MATCH_THRESHOLD :: rat where
  "RELAXED_MATCH_THRESHOLD = 65 / 100"

definition TOP_RESULT_THRESHOLD :: rat where
  "TOP_RESULT_THRESHOLD = 40 / 100"

text \<open>
  The body of the loop over the results, for the result at position \<open>index\<close> whose
  lower-cased name is \<open>res_lower\<close>: the score it is given and whether it is appended to
  \<open>matches\<close>.
\<close>

definition judge :: "string \<Rightarrow> nat \<Rightarrow> string \<Rightarrow> rat \<times> bool" where
  "judge title index res_lower =
     (if res_lower = lower title then (1, True)
      else let score = ratio (lower title) res_lower
        in (score,
            if FUZZY_MATCH_THRESHOLD \<le> score then True
            else if RELAXED_MATCH_THRESHOLD \<le> score then True
            else if index = 0 \<and> TOP_RESULT_THRESHOLD \<le> score then True
            else False))"

text \<open>
  The body of the loop \<open>for index, res in enumerate(tmdb_results)\<close>: the result with
  its \<open>_score\<close> entry set, and whether it is appended to \<open>matches\<close>. A name that is
  not a string has no method \<open>lower\<close>.
\<close>

definition body :: "string \<Rightarrow> string \<Rightarrow> nat \<Rightarrow> candidate \<Rightarrow> error + candidate \<times> bool" where
  "body field title index res =
     (case py_lower (dict_get res field (PStr [])) of
        Inl e \<Rightarrow> Inl e
      | Inr res_lower \<Rightarrow>
          (case judge title index res_lower of
             (score, keep) \<Rightarrow> Inr (dict_set res ''_score'' (PFloat score), keep)))"

text \<open>
  The loop. It returns \<open>matches\<close>: the results that are kept, in the provider's order.
  A result that is not kept has its \<open>_score\<close> set as well, in a dictionary that nothing
  reads afterwards.
\<close>

fun scan :: "string \<Rightarrow> string \<Rightarrow> nat \<Rightarrow> candidate list \<Rightarrow> error + candidate list" where
  "scan field title index [] = Inr []"
| "scan field title index (res # rest) =
     (case body field title index res of
        Inl e \<Rightarrow> Inl e
      | Inr (res', keep) \<Rightarrow>
          (case scan field title (Suc index) rest of
             Inl e \<Rightarrow> Inl e
           | Inr matches \<Rightarrow> Inr (if keep then res' # matches else matches)))"

text \<open>
  The key under which \<open>m["id"]\<close> is looked up in \<open>seen_ids\<close>: the lookup raises
  \<open>KeyError\<close> when the result has no \<open>id\<close>.
\<close>

definition id_key :: "candidate \<Rightarrow> error + hkey" where
  "id_key m = (case dict_item m ''id'' of Inl e \<Rightarrow> Inl e | Inr v \<Rightarrow> hash_key v)"

text \<open>The loop that removes results whose \<open>id\<close> was seen before.\<close>

fun dedup :: "hkey set \<Rightarrow> candidate list \<Rightarrow> error + candidate list" where
  "dedup seen_ids [] = Inr []"
| "dedup seen_ids (m # matches) =
     (case id_key m of
        Inl e \<Rightarrow> Inl e
      | Inr k \<Rightarrow>
          if k \<notin> seen_ids
          then (case dedup (insert k seen_ids) matches of
                  Inl e \<Rightarrow> Inl e
                | Inr unique_matches \<Rightarrow> Inr (m # unique_matches))
          else dedup seen_ids matches)"

text \<open>
  The sort key \<open>x.get("_score", 0)\<close>. Every result that reaches the sort had its
  \<open>_score\<close> set to a float by the loop above.
\<close>

definition score_of :: "candidate \<Rightarrow> rat" where
  "score_of x = (case dict_get x ''_score'' (PInt 0) of
       PFloat q \<Rightarrow> q | PInt n \<Rightarrow> of_int n | PBool t \<Rightarrow> (if t then 1 else 0) | _ \<Rightarrow> 0)"

text \<open>
  \<open>unique_matches.sort(key=..., reverse=True)\<close> is stable: results with equal scores
  keep their order.
\<close>

definition sort_by_score :: "candidate list \<Rightarrow> candidate list" where
  "sort_by_score ms = sort_key (\<lambda>x. - score_of x) ms"

text \<open>
  The part of \<open>search_movie\<close> and \<open>search_tv\<close> that follows the request: \<open>field\<close> is
  \<open>title\<close> for a film and \<open>name\<close> for a series, \<open>tmdb_results\<close> is the list under
  \<open>results\<close> in the provider's answer (empty when the request failed).
\<close>

definition match_results :: "string \<Rightarrow> string \<Rightarrow> candidate list \<Rightarrow> error + candidate list" where
  "match_results field title tmdb_results =
     (if tmdb_results = [] then Inr []
      else case scan field title 0 tmdb_results of
             Inl e \<Rightarrow> Inl e
           | Inr matches \<Rightarrow>
               (case dedup {} matches of
                  Inl e \<Rightarrow> Inl e
                | Inr unique_matches \<Rightarrow> Inr (take 5 (sort_by_score unique_matches))))"

definition search_movie :: "string \<Rightarrow> candidate list \<Rightarrow> error + candidate list" where
  "search_movie title tmdb_results = match_results ''title'' title tmdb_results"

definition search_tv :: "string \<Rightarrow> candidate list \<Rightarrow> error + candidate list" where
  "search_tv title tmdb_results = match_results ''name'' title tmdb_results"

text \<open>
  What the matcher needs of a result: a name that is a string when it is there, and an
  \<open>id\<close> that can be hashed.
\<close>

definition name_ok :: "string \<Rightarrow> candidate \<Rightarrow> bool" where
  "name_ok field r = (case map_of r field of None \<Rightarrow> True | Some (PStr s) \<Rightarrow> True | Some _ \<Rightarrow> False)"

definition id_ok :: "candidate \<Rightarrow> bool" where
  "id_ok r = (case id_key r of Inl e \<Rightarrow> False | Inr k \<Rightarrow> True)"

text \<open>
  The place in \<open>matches\<close> of the first result that has the identifier of \<open>u\<close>, and the
  order of the returned ranking: a higher score first, and among equal scores the result
  whose identifier comes first in \<open>matches\<close>.
\<close>

definition first_pos :: "candidate list \<Rightarrow> candidate \<Rightarrow> nat" where
  "first_pos ms u = length (takeWhile (\<lambda>x. id_key x \<noteq> id_key u) ms)"

definition ranked_before :: "candidate list \<Rightarrow> candidate \<Rightarrow> candidate \<Rightarrow> bool" where
  "ranked_before ms u v =
     (score_of v < score_of u \<or> (score_of u = score_of v \<and> first_pos ms u < first_pos ms v))"

text \<open>
  The number of deduplicated results of score 1 that stand before \<open>m\<close>.
\<close>

definition exact_rank :: "candidate list \<Rightarrow> candidate \<Rightarrow> nat" where
  "exact_rank us m = length (takeWhile (\<lambda>x. x \<noteq> m) (filter (\<lambda>x. score_of x = 1) us))"

section \<open>Lemmas about the patterns\<close>

lemma search_at_Some:
  "search_at r s starts = Some (i, j, g) \<Longrightarrow> i \<in> set starts \<and> (j, g) \<in> set (rmatch r s (i, None))"
  by (induction starts) (auto split: list.splits)

lemma rep4: "rep 4 r = Seq r (Seq r (Seq r (Seq r Eps)))"
  by (simp add: numeral_eq_Suc)

lemma rep2: "rep 2 r = Seq r (Seq r Eps)"
  by (simp add: numeral_eq_Suc)

lemma rmatch_SeqE:
  assumes "st' \<in> set (rmatch (Seq r1 r2) s st)"
  obtains m where "m \<in> set (rmatch r1 s st)" and "st' \<in> set (rmatch r2 s m)"
  using assms by auto

lemma rmatch_nocap:
  "nocap r \<Longrightarrow> (j, g') \<in> set (rmatch r s (i, g)) \<Longrightarrow> g' = g"
proof (induction r arbitrary: i j g g')
  case (Seq r1 r2)
  from Seq.prems(2) obtain m where m: "m \<in> set (rmatch r1 s (i, g))" "(j, g') \<in> set (rmatch r2 s m)"
    by (rule rmatch_SeqE)
  obtain p gm where "m = (p, gm)" by (cases m)
  with m Seq.IH(1)[of p gm i g] Seq.IH(2)[of j g' p gm] Seq.prems(1) show ?case by simp
qed (auto split: if_splits)

lemma digits4_match:
  assumes "(j, g') \<in> set (rmatch (Cap (rep 4 (Cls Digit))) s (a, g))"
  shows "j = a + 4 \<and> g' = Some (a, a + 4) \<and> a + 4 \<le> length s \<and> is_digit (s ! a)
         \<and> is_digit (s ! (a + 1)) \<and> is_digit (s ! (a + 2)) \<and> is_digit (s ! (a + 3))"
  using assms by (auto simp: rep4 numeral_eq_Suc split: if_splits)

lemma century_match:
  assumes "(j, g') \<in> set (rmatch (Cap (Seq (Alt (lit ''19'') (lit ''20'')) (rep 2 (Cls Digit)))) s (a, g))"
  shows "j = a + 4 \<and> g' = Some (a, a + 4) \<and> a + 4 \<le> length s
         \<and> ((s ! a = CHR ''1'' \<and> s ! (a + 1) = CHR ''9'') \<or> (s ! a = CHR ''2'' \<and> s ! (a + 1) = CHR ''0''))
         \<and> is_digit (s ! (a + 2)) \<and> is_digit (s ! (a + 3))"
  using assms by (auto simp: rep2 numeral_eq_Suc split: if_splits)

lemma year_pattern_group:
  assumes "(j, g) \<in> set (rmatch year_pattern s (i, g0))"
  shows "\<exists>a. g = Some (a, a + 4) \<and> a + 4 \<le> length s \<and> is_digit (s ! a) \<and> is_digit (s ! (a + 1))
            \<and> is_digit (s ! (a + 2)) \<and> is_digit (s ! (a + 3))"
proof -
  let ?tl = "seqs [Chr CHR '')'', Star Space, Eos]"
  from assms obtain m1 where m1: "m1 \<in> set (rmatch (Star Space) s (i, g0))"
      "(j, g) \<in> set (rmatch (seqs [Chr CHR ''('', Cap (rep 4 (Cls Digit)), Chr CHR '')'', Star Space, Eos]) s m1)"
    unfolding year_pattern_def seqs.simps by (rule rmatch_SeqE)
  from m1(2) obtain m2 where m2: "m2 \<in> set (rmatch (Chr CHR ''('') s m1)"
      "(j, g) \<in> set (rmatch (seqs [Cap (rep 4 (Cls Digit)), Chr CHR '')'', Star Space, Eos]) s m2)"
    unfolding seqs.simps by (rule rmatch_SeqE)
  from m2(2) obtain m3 where m3: "m3 \<in> set (rmatch (Cap (rep 4 (Cls Digit))) s m2)"
      "(j, g) \<in> set (rmatch ?tl s m3)"
    unfolding seqs.simps by (rule rmatch_SeqE)
  obtain a g2 where m2eq: "m2 = (a, g2)" by (cases m2)
  obtain p g3 where m3eq: "m3 = (p, g3)" by (cases m3)
  have "nocap ?tl" by simp
  from rmatch_nocap[OF this] m3(2) m3eq have "g = g3" by blast
  with digits4_match[of p g3 s a g2] m3(1) m2eq m3eq show ?thesis by blast
qed

lemma trailing_year_pattern_group:
  assumes "(j, g) \<in> set (rmatch trailing_year_pattern s (i, g0))"
  shows "\<exists>a. g = Some (a, a + 4) \<and> a + 4 \<le> length s
            \<and> ((s ! a = CHR ''1'' \<and> s ! (a + 1) = CHR ''9'') \<or> (s ! a = CHR ''2'' \<and> s ! (a + 1) = CHR ''0''))
            \<and> is_digit (s ! (a + 2)) \<and> is_digit (s ! (a + 3))"
proof -
  let ?cap = "Cap (Seq (Alt (lit ''19'') (lit ''20'')) (rep 2 (Cls Digit)))"
  let ?tl = "seqs [Star Space, Eos]"
  from assms obtain m1 where m1: "m1 \<in> set (rmatch (Plus Space) s (i, g0))"
      "(j, g) \<in> set (rmatch (seqs [?cap, Star Space, Eos]) s m1)"
    unfolding trailing_year_pattern_def seqs.simps by (rule rmatch_SeqE)
  from m1(2) obtain m2 where m2: "m2 \<in> set (rmatch ?cap s m1)" "(j, g) \<in> set (rmatch ?tl s m2)"
    unfolding seqs.simps by (rule rmatch_SeqE)
  obtain a g1 where m1eq: "m1 = (a, g1)" by (cases m1)
  obtain p g2 where m2eq: "m2 = (p, g2)" by (cases m2)
  have "nocap ?tl" by simp
  from rmatch_nocap[OF this] m2(2) m2eq have "g = g2" by blast
  with century_match[of p g2 s a g1] m2(1) m1eq m2eq show ?thesis by blast
qed

lemma take4_drop:
  "a + 4 \<le> length s \<Longrightarrow> take 4 (drop a s) = [s ! a, s ! (a + 1), s ! (a + 2), s ! (a + 3)]"
  by (auto simp: list_eq_iff_nth_eq nth_Cons' numeral_eq_Suc less_Suc_eq)

lemma digit_val_range: "is_digit c \<Longrightarrow> 0 \<le> digit_val c \<and> digit_val c \<le> 9"
  by (auto simp: is_digit_def digit_val_def Let_def)

lemma int_of_digits4:
  "int_of_digits [c1, c2, c3, c4] = 1000 * digit_val c1 + 100 * digit_val c2 + 10 * digit_val c3 + digit_val c4"
  by (simp add: int_of_digits_def)


lemma movie_year_range:
  assumes "parse_movie_with_year s = (t, Some y)"
  shows "0 \<le> y \<and> y \<le> 9999"
proof -
  from assms obtain m where m: "re_search year_pattern s = Some m"
      and y: "y = int_of_digits (group1 s m)"
    by (auto simp: parse_movie_with_year_def split: option.splits)
  obtain i j g where meq: "m = (i, j, g)" by (cases m)
  from m meq have "(j, g) \<in> set (rmatch year_pattern s (i, None))"
    using search_at_Some unfolding re_search_def by blast
  from year_pattern_group[OF this] obtain a where a: "g = Some (a, a + 4)" "a + 4 \<le> length s"
      "is_digit (s ! a)" "is_digit (s ! (a + 1))" "is_digit (s ! (a + 2))" "is_digit (s ! (a + 3))"
    by blast
  have "group1 s m = [s ! a, s ! (a + 1), s ! (a + 2), s ! (a + 3)]"
    using a(1,2) meq by (simp add: group1_def take4_drop)
  with y have "y = 1000 * digit_val (s ! a) + 100 * digit_val (s ! (a + 1))
      + 10 * digit_val (s ! (a + 2)) + digit_val (s ! (a + 3))"
    by (simp add: int_of_digits4)
  with a(3-6)[THEN digit_val_range] show ?thesis by linarith
qed

lemma trailing_year_range:
  assumes "re_search trailing_year_pattern s = Some m"
  shows "1900 \<le> int_of_digits (group1 s m) \<and> int_of_digits (group1 s m) \<le> 2099"
proof -
  obtain i j g where meq: "m = (i, j, g)" by (cases m)
  from assms meq have "(j, g) \<in> set (rmatch trailing_year_pattern s (i, None))"
    using search_at_Some unfolding re_search_def by blast
  from trailing_year_pattern_group[OF this] obtain a where a: "g = Some (a, a + 4)"
      "a + 4 \<le> length s"
      "(s ! a = CHR ''1'' \<and> s ! (a + 1) = CHR ''9'') \<or> (s ! a = CHR ''2'' \<and> s ! (a + 1) = CHR ''0'')"
      "is_digit (s ! (a + 2))" "is_digit (s ! (a + 3))"
    by blast
  have g: "group1 s m = [s ! a, s ! (a + 1), s ! (a + 2), s ! (a + 3)]"
    using a(1,2) meq by (simp add: group1_def take4_drop)
  have "1000 * digit_val (s ! a) + 100 * digit_val (s ! (a + 1)) = 1900
      \<or> 1000 * digit_val (s ! a) + 100 * digit_val (s ! (a + 1)) = 2000"
    using a(3) by (auto simp: digit_val_def)
  with a(4,5)[THEN digit_val_range] show ?thesis
    unfolding g int_of_digits4 by linarith
qed

lemma search_at_None:
  "(\<And>i. i \<in> set starts \<Longrightarrow> rmatch r s (i, None) = []) \<Longrightarrow> search_at r s starts = None"
  by (induction starts) auto

lemma run_none:
  assumes "\<And>c. c \<in> set s \<Longrightarrow> \<not> in_class k c"
  shows "run k s i = 0"
proof (cases "drop i s")
  case Nil
  then show ?thesis by (simp add: run_def)
next
  case (Cons c cs)
  then have "c \<in> set (drop i s)" by simp
  then have "c \<in> set s" by (rule in_set_dropD)
  with assms Cons show ?thesis by (simp add: run_def)
qed

lemma seq_fail1: "rmatch r1 s st = [] \<Longrightarrow> rmatch (Seq r1 r2) s st = []"
  by simp

lemma seq_fail2: "(\<And>m. rmatch r2 s m = []) \<Longrightarrow> rmatch (Seq r1 r2) s st = []"
  by simp

lemma no_paren_no_year:
  assumes "CHR ''('' \<notin> set s"
  shows "re_search year_pattern s = None"
proof -
  have "rmatch (Chr CHR ''('') s st = []" for st
    using assms by (cases st) (auto simp: in_set_conv_nth)
  then have "rmatch year_pattern s (i, None) = []" for i
    unfolding year_pattern_def seqs.simps by (intro seq_fail2 seq_fail1)
  then show ?thesis
    unfolding re_search_def by (intro search_at_None)
qed

lemma no_space_no_trailing_year:
  assumes "\<And>c. c \<in> set s \<Longrightarrow> \<not> is_space c"
  shows "re_search trailing_year_pattern s = None"
proof -
  have "run Space s i = 0" for i
    using assms by (intro run_none) simp
  then have "rmatch (Plus Space) s (i, None) = []" for i
    by simp
  then have "rmatch trailing_year_pattern s (i, None) = []" for i
    unfolding trailing_year_pattern_def seqs.simps by (intro seq_fail1)
  then show ?thesis
    unfolding re_search_def by (intro search_at_None)
qed

lemma digit_not_space: "is_digit c \<Longrightarrow> \<not> is_space c"
  by (auto simp: is_digit_def is_space_def Let_def)

lemma digit_not_paren: "is_digit c \<Longrightarrow> c \<noteq> CHR ''(''"
  by (auto simp: is_digit_def)

lemma space_not_paren: "is_space c \<Longrightarrow> c \<noteq> CHR ''(''"
  by (auto simp: is_space_def)

lemma strip_Nil: "strip [] = []"
  by (simp add: strip_def)

lemma strip_id:
  "\<not> is_space c \<Longrightarrow> \<not> is_space d \<Longrightarrow> strip (c # xs @ [d]) = c # xs @ [d]"
  by (simp add: strip_def)

lemma bare_year:
  assumes "c1 = CHR ''1'' \<and> c2 = CHR ''9'' \<or> c1 = CHR ''2'' \<and> c2 = CHR ''0''"
    and "is_digit d1" and "is_digit d2"
  shows "parse_title_with_year [c1, c2, d1, d2] = ([c1, c2, d1, d2], None)"
proof -
  let ?s = "[c1, c2, d1, d2]"
  have c: "is_digit c1" "is_digit c2" using assms(1) by (auto simp: is_digit_def)
  have "CHR ''('' \<notin> set ?s"
    using c assms(2,3) digit_not_paren by auto
  then have y: "re_search year_pattern ?s = None" by (rule no_paren_no_year)
  have "\<not> is_space x" if "x \<in> set ?s" for x
    using that c assms(2,3) digit_not_space by auto
  then have t: "re_search trailing_year_pattern ?s = None" by (rule no_space_no_trailing_year)
  have "strip ?s = ?s"
    using strip_id[of c1 d2 "[c2, d1]"] c(1) assms(3) digit_not_space by simp
  with y t show ?thesis
    by (simp add: parse_title_with_year_def parse_movie_with_year_def truthy_def)
qed

lemma run_prefix:
  assumes "\<And>c. c \<in> set ws \<Longrightarrow> in_class k c" and "\<not> in_class k d"
  shows "run k (ws @ d # rest) 0 = length ws"
  using assms by (simp add: run_def takeWhile_append2)

lemma rev_upt_last: "0 < n \<Longrightarrow> rev [Suc 0 ..< Suc n] = n # rev [Suc 0 ..< n]"
  by (cases n) simp_all

lemma century_at:
  assumes "Suc (Suc (Suc a)) < length s"
    and "s ! a = CHR ''1'' \<and> s ! Suc a = CHR ''9'' \<or> s ! a = CHR ''2'' \<and> s ! Suc a = CHR ''0''"
    and "is_digit (s ! Suc (Suc a))" and "is_digit (s ! Suc (Suc (Suc a)))"
  shows "rmatch (Cap (Seq (Alt (lit ''19'') (lit ''20'')) (rep 2 (Cls Digit)))) s (a, g)
     = [(a + 4, Some (a, a + 4))]"
  using assms by (elim disjE conjE; simp add: rep2)

lemma tail_at_end: "rmatch (seqs [Star Space, Eos]) s (length s, g) = [(length s, g)]"
  by (simp add: run_def at_end_def)

lemma spaces_then_year:
  assumes "ws \<noteq> []" and "\<And>c. c \<in> set ws \<Longrightarrow> is_space c"
    and "c1 = CHR ''1'' \<and> c2 = CHR ''9'' \<or> c1 = CHR ''2'' \<and> c2 = CHR ''0''"
    and "is_digit d1" and "is_digit d2"
  shows "parse_title_with_year (ws @ [c1, c2, d1, d2]) = ([], Some (int_of_digits [c1, c2, d1, d2]))"
proof -
  let ?y = "[c1, c2, d1, d2]"
  let ?s = "ws @ ?y"
  let ?n = "length ws"
  let ?tl = "seqs [Cap (Seq (Alt (lit ''19'') (lit ''20'')) (rep 2 (Cls Digit))), Star Space, Eos]"
  have c: "is_digit c1" "is_digit c2" using assms(3) by (auto simp: is_digit_def)
  have n: "0 < ?n" using assms(1) by simp
  have "CHR ''('' \<notin> set ?s"
    using c assms(2,4,5) digit_not_paren space_not_paren by auto
  then have y: "re_search year_pattern ?s = None" by (rule no_paren_no_year)
  have nth: "?s ! ?n = c1" "?s ! Suc ?n = c2" "?s ! Suc (Suc ?n) = d1" "?s ! Suc (Suc (Suc ?n)) = d2"
    by (simp_all add: nth_append)
  have run0: "run Space ?s 0 = ?n"
    using run_prefix[of ws Space c1 "[c2, d1, d2]"] assms(2) c(1) digit_not_space by simp
  have run4: "run Space ?s (?n + 4) = 0"
    by (simp add: run_def)
  have len: "length ?s = ?n + 4" by simp
  have far: "Suc (Suc (Suc ?n)) < length ?s" by simp
  have cent: "?s ! ?n = CHR ''1'' \<and> ?s ! Suc ?n = CHR ''9''
      \<or> ?s ! ?n = CHR ''2'' \<and> ?s ! Suc ?n = CHR ''0''"
    using assms(3) by (simp only: nth)
  have dg: "is_digit (?s ! Suc (Suc ?n))" "is_digit (?s ! Suc (Suc (Suc ?n)))"
    using assms(4,5) by (simp_all only: nth)
  have "rmatch (Cap (Seq (Alt (lit ''19'') (lit ''20'')) (rep 2 (Cls Digit)))) ?s (?n, None)
      = [(?n + 4, Some (?n, ?n + 4))]"
    by (rule century_at[OF far cent dg])
  moreover have "rmatch (seqs [Star Space, Eos]) ?s (?n + 4, Some (?n, ?n + 4))
      = [(?n + 4, Some (?n, ?n + 4))]"
    using tail_at_end[of ?s] unfolding len by simp
  ultimately have tl: "rmatch ?tl ?s (?n, None) = [(?n + 4, Some (?n, ?n + 4))]"
    unfolding seqs.simps(2)[of "Cap (Seq (Alt (lit ''19'') (lit ''20'')) (rep 2 (Cls Digit)))"]
    by (simp only: rmatch.simps(4) list.map concat.simps append_Nil2)
  have "rmatch trailing_year_pattern ?s (0, None)
      = concat (map (rmatch ?tl ?s) (map (\<lambda>j. (j, None)) (rev [Suc 0 ..< Suc ?n])))"
    by (simp add: trailing_year_pattern_def run0)
  also have "\<dots> = (?n + 4, Some (?n, ?n + 4))
      # concat (map (rmatch ?tl ?s) (map (\<lambda>j. (j, None)) (rev [Suc 0 ..< ?n])))"
    unfolding rev_upt_last[OF n] using tl by simp
  finally have m0: "rmatch trailing_year_pattern ?s (0, None) = (?n + 4, Some (?n, ?n + 4))
      # concat (map (rmatch ?tl ?s) (map (\<lambda>j. (j, None)) (rev [Suc 0 ..< ?n])))" .
  have starts: "[0 ..< Suc (length ?s)] = 0 # [Suc 0 ..< Suc (length ?s)]"
    by (rule upt_conv_Cons) simp
  have found: "search_at trailing_year_pattern ?s [0 ..< Suc (length ?s)]
      = Some (0, ?n + 4, Some (?n, ?n + 4))"
    unfolding starts by (simp add: m0)
  have "rmatch trailing_year_pattern ?s (?n + 4, None) = []"
    by (simp add: trailing_year_pattern_def run4)
  moreover have "[?n + 4 ..< Suc (length ?s)] = [?n + 4]"
    by simp
  ultimately have rest: "search_at trailing_year_pattern ?s [?n + 4 ..< Suc (length ?s)] = None"
    by (simp only: search_at.simps list.case)
  have "sub_from trailing_year_pattern ?s (?n + 4) = []"
    by (subst sub_from.simps, simp only: rest option.case, simp)
  then have sub: "re_sub trailing_year_pattern ?s = []"
    unfolding re_sub_def by (subst sub_from.simps, simp only: found option.case prod.case, simp)
  have grp: "group1 ?s (0, ?n + 4, Some (?n, ?n + 4)) = ?y"
    by (simp add: group1_def)
  from y found sub grp show ?thesis
    by (simp add: parse_title_with_year_def parse_movie_with_year_def truthy_def re_search_def strip_Nil)
qed

text \<open>
  What the two parsers return for an input that ends in a parenthesized group of four
  digits: \<open>p\<close> is the text before it, up to its last character that is not whitespace.
\<close>

lemma run_bound: "i + run k s i \<le> max i (length s)"
proof -
  have "run k s i \<le> length (drop i s)"
    unfolding run_def by (rule length_takeWhile_le)
  then show ?thesis by simp
qed

lemma run_in_class:
  assumes "i \<le> x" and "x < i + run k s i"
  shows "in_class k (s ! x)"
proof -
  let ?tw = "takeWhile (in_class k) (drop i s)"
  from assms have n: "x - i < length ?tw" by (simp add: run_def)
  then have "?tw ! (x - i) \<in> set ?tw" by (rule nth_mem)
  then have "in_class k (?tw ! (x - i))" by (rule set_takeWhileD[THEN conjunct2])
  moreover have "?tw ! (x - i) = drop i s ! (x - i)" using n by (rule takeWhile_nth)
  moreover have "x < length s" using run_bound[of i k s] assms by (simp add: max_def split: if_splits)
  ultimately show ?thesis using assms(1) by simp
qed

lemma rmatch_Star_iff:
  "(j, g) \<in> set (rmatch (Star k) s (i, g0)) \<longleftrightarrow> g = g0 \<and> i \<le> j \<and> j \<le> i + run k s i"
  by auto

lemma rmatch_Chr_iff:
  "(j, g) \<in> set (rmatch (Chr c) s (i, g0)) \<longleftrightarrow> g = g0 \<and> i < length s \<and> s ! i = c \<and> j = Suc i"
  by auto

lemma rmatch_Eos_iff:
  "(j, g) \<in> set (rmatch (Seq Eos Eps) s (i, g0)) \<longleftrightarrow> g = g0 \<and> j = i \<and> at_end s i"
  by auto

lemma newline_is_space: "is_space (CHR 0x0A)"
  by (simp add: is_space_def)

lemma year_pattern_match:
  assumes "(j, g) \<in> set (rmatch year_pattern s (i, g0))"
  shows "\<exists>q. i \<le> q \<and> q + 6 \<le> length s \<and> (\<forall>x. i \<le> x \<and> x < q \<longrightarrow> is_space (s ! x))
           \<and> s ! q = CHR ''('' \<and> s ! (q + 5) = CHR '')''
           \<and> (\<forall>x. q + 6 \<le> x \<and> x < length s \<longrightarrow> is_space (s ! x))"
proof -
  from assms obtain m1 where m1: "m1 \<in> set (rmatch (Star Space) s (i, g0))"
      "(j, g) \<in> set (rmatch (seqs [Chr CHR ''('', Cap (rep 4 (Cls Digit)), Chr CHR '')'', Star Space, Eos]) s m1)"
    unfolding year_pattern_def seqs.simps by (rule rmatch_SeqE)
  from m1(2) obtain m2 where m2: "m2 \<in> set (rmatch (Chr CHR ''('') s m1)"
      "(j, g) \<in> set (rmatch (seqs [Cap (rep 4 (Cls Digit)), Chr CHR '')'', Star Space, Eos]) s m2)"
    unfolding seqs.simps by (rule rmatch_SeqE)
  from m2(2) obtain m3 where m3: "m3 \<in> set (rmatch (Cap (rep 4 (Cls Digit))) s m2)"
      "(j, g) \<in> set (rmatch (seqs [Chr CHR '')'', Star Space, Eos]) s m3)"
    unfolding seqs.simps by (rule rmatch_SeqE)
  from m3(2) obtain m4 where m4: "m4 \<in> set (rmatch (Chr CHR '')'') s m3)"
      "(j, g) \<in> set (rmatch (seqs [Star Space, Eos]) s m4)"
    unfolding seqs.simps by (rule rmatch_SeqE)
  from m4(2) obtain m5 where m5: "m5 \<in> set (rmatch (Star Space) s m4)"
      "(j, g) \<in> set (rmatch (Seq Eos Eps) s m5)"
    unfolding seqs.simps by (rule rmatch_SeqE)
  obtain q g1 where e1: "m1 = (q, g1)" by (cases m1)
  obtain p2 g2 where e2: "m2 = (p2, g2)" by (cases m2)
  obtain p3 g3 where e3: "m3 = (p3, g3)" by (cases m3)
  obtain p4 g4 where e4: "m4 = (p4, g4)" by (cases m4)
  obtain e g5 where e5: "m5 = (e, g5)" by (cases m5)
  have "g1 = g0 \<and> i \<le> q \<and> q \<le> i + run Space s i"
    using m1(1)[unfolded e1] by (simp only: rmatch_Star_iff)
  then have q: "i \<le> q" "q \<le> i + run Space s i" by simp_all
  have "g2 = g1 \<and> q < length s \<and> s ! q = CHR ''('' \<and> p2 = Suc q"
    using m2(1)[unfolded e1 e2] by (simp only: rmatch_Chr_iff)
  then have p2: "q < length s" "s ! q = CHR ''(''" "p2 = Suc q" by simp_all
  have p3: "p3 = p2 + 4"
    using digits4_match[OF m3(1)[unfolded e2 e3]] by simp
  have "g4 = g3 \<and> p3 < length s \<and> s ! p3 = CHR '')'' \<and> p4 = Suc p3"
    using m4(1)[unfolded e3 e4] by (simp only: rmatch_Chr_iff)
  then have p4: "p3 < length s" "s ! p3 = CHR '')''" "p4 = Suc p3" by simp_all
  have "g5 = g4 \<and> p4 \<le> e \<and> e \<le> p4 + run Space s p4"
    using m5(1)[unfolded e4 e5] by (simp only: rmatch_Star_iff)
  then have e: "p4 \<le> e" "e \<le> p4 + run Space s p4" by simp_all
  have "g = g5 \<and> j = e \<and> at_end s e"
    using m5(2)[unfolded e5] by (simp only: rmatch_Eos_iff)
  then have ae: "at_end s e" by simp
  have pre: "is_space (s ! x)" if "i \<le> x" "x < q" for x
    using run_in_class[of i x Space s] that q by simp
  have post: "is_space (s ! x)" if "q + 6 \<le> x" "x < length s" for x
  proof (cases "x < e")
    case True
    with run_in_class[of p4 x Space s] that e p2 p3 p4 show ?thesis by simp
  next
    case False
    with ae that have "x = e" "s ! e = CHR 0x0A" by (auto simp: at_end_def)
    with newline_is_space show ?thesis by simp
  qed
  from q(1) p2 p3 p4 pre post show ?thesis
    by (intro exI[of _ q]) (simp add: add.commute)
qed


lemma search_at_skip:
  "(\<And>i. i \<in> set xs \<Longrightarrow> rmatch r s (i, None) = []) \<Longrightarrow> search_at r s (xs @ ys) = search_at r s ys"
  by (induction xs) auto

lemma run_at:
  assumes "\<And>c. c \<in> set ws \<Longrightarrow> in_class k c" and "rest = [] \<or> \<not> in_class k (hd rest)"
  shows "run k (pre @ ws @ rest) (length pre) = length ws"
proof -
  have "takeWhile (in_class k) rest = []"
    using assms(2) by (cases rest) auto
  with assms(1) show ?thesis
    by (simp add: run_def takeWhile_append2)
qed

lemma first_Seq:
  assumes "\<exists>ms. rmatch r1 s st = m # ms" and "\<exists>xs. rmatch r2 s m = x # xs"
  shows "\<exists>xs. rmatch (Seq r1 r2) s st = x # xs"
  using assms by auto

lemma first_Star:
  assumes "run k s i = n"
  shows "\<exists>ms. rmatch (Star k) s (i, g) = (i + n, g) # ms"
  using assms by simp

lemma first_Chr:
  assumes "i < length s" and "s ! i = c"
  shows "\<exists>ms. rmatch (Chr c) s (i, g) = (Suc i, g) # ms"
  using assms by simp

lemma first_digits4:
  assumes "i + 4 \<le> length s" and "\<And>t. t < 4 \<Longrightarrow> is_digit (s ! (i + t))"
  shows "\<exists>ms. rmatch (Cap (rep 4 (Cls Digit))) s (i, g) = (i + 4, Some (i, i + 4)) # ms"
proof -
  have "is_digit (s ! i)" "is_digit (s ! Suc i)" "is_digit (s ! Suc (Suc i))"
      "is_digit (s ! Suc (Suc (Suc i)))"
    using assms(2)[of 0] assms(2)[of "Suc 0"] assms(2)[of "Suc (Suc 0)"]
      assms(2)[of "Suc (Suc (Suc 0))"] by simp_all
  with assms(1) show ?thesis by (simp add: rep4)
qed

lemma first_Eos: "\<exists>ms. rmatch (Seq Eos Eps) s (length s, g) = (length s, g) # ms"
  by (simp add: at_end_def)

lemma paren_not_space: "\<not> is_space CHR '')''" "\<not> is_space CHR ''(''"
  by (simp_all add: is_space_def)

lemma parenthesized_search:
  assumes p: "p = [] \<or> \<not> is_space (last p)"
    and w1: "\<And>c. c \<in> set ws1 \<Longrightarrow> is_space c" and w2: "\<And>c. c \<in> set ws2 \<Longrightarrow> is_space c"
    and ds: "length ds = 4" "\<And>c. c \<in> set ds \<Longrightarrow> is_digit c"
    and s: "s = p @ ws1 @ CHR ''('' # ds @ CHR '')'' # ws2"
  shows "re_search year_pattern s
       = Some (length p, length s,
               Some (Suc (length p + length ws1), Suc (length p + length ws1) + 4))"
    and "rmatch year_pattern s (length s, None) = []"
proof -
  let ?n = "length p"
  let ?q = "length p + length ws1"
  let ?g = "Some (Suc ?q, Suc ?q + 4)"
  have len: "length s = ?q + 6 + length ws2" using s ds(1) by simp
  have sq: "s ! ?q = CHR ''(''"
    unfolding s by (simp add: nth_append)
  have sd: "is_digit (s ! (Suc ?q + t))" if "t < 4" for t
  proof -
    have "s ! (Suc ?q + t) = ds ! t"
      unfolding s using that ds(1) by (simp add: nth_append)
    with ds that show ?thesis by simp
  qed
  have sc: "s ! (?q + 5) = CHR '')''"
    unfolding s using ds(1) by (simp add: nth_append)
  have sw: "is_space (s ! x)" if "?q + 6 \<le> x" "x < length s" for x
  proof -
    let ?pre = "p @ ws1 @ CHR ''('' # ds @ [CHR '')'']"
    have "s = ?pre @ ws2" unfolding s by simp
    moreover have "length ?pre = ?q + 6" using ds(1) by simp
    ultimately have "s ! x = ws2 ! (x - (?q + 6))"
      using that(1) by (metis nth_append not_less)
    moreover have "x - (?q + 6) < length ws2" using that len by linarith
    ultimately show ?thesis using w2 by simp
  qed
  \<comment> \<open>no match starts inside \<open>p\<close>\<close>
  have none: "rmatch year_pattern s (i, None) = []" if i: "i < ?n" for i
  proof (rule ccontr)
    assume "rmatch year_pattern s (i, None) \<noteq> []"
    then obtain j g where "(j, g) \<in> set (rmatch year_pattern s (i, None))"
      by (cases "rmatch year_pattern s (i, None)") auto
    from year_pattern_match[OF this] obtain q' where q': "i \<le> q'" "q' + 6 \<le> length s"
        "\<forall>x. i \<le> x \<and> x < q' \<longrightarrow> is_space (s ! x)" "s ! q' = CHR ''(''"
        "s ! (q' + 5) = CHR '')''" "\<forall>x. q' + 6 \<le> x \<and> x < length s \<longrightarrow> is_space (s ! x)"
      by blast
    have "\<not> q' + 6 \<le> ?q + 5"
    proof
      assume "q' + 6 \<le> ?q + 5"
      moreover have "?q + 5 < length s" using len by simp
      ultimately have "is_space (s ! (?q + 5))" using q'(6) by blast
      with sc paren_not_space(1) show False by simp
    qed
    moreover have "\<not> ?q + 6 \<le> q' + 5"
    proof
      assume "?q + 6 \<le> q' + 5"
      moreover have "q' + 5 < length s" using q'(2) by simp
      ultimately have "is_space (s ! (q' + 5))" by (rule sw)
      with q'(5) paren_not_space(1) show False by simp
    qed
    ultimately have qq: "q' = ?q" by linarith
    from i have pne: "p \<noteq> []" by auto
    have "?n - 1 < ?n" using i by linarith
    then have "s ! (?n - 1) = p ! (?n - 1)" unfolding s by (simp only: nth_append if_True)
    also have "\<dots> = last p" using pne by (simp add: last_conv_nth)
    finally have lp: "s ! (?n - 1) = last p" .
    have "i \<le> ?n - 1 \<and> ?n - 1 < ?q" using i by linarith
    with q'(3) qq have "is_space (s ! (?n - 1))" by blast
    with lp pne p show False by simp
  qed
  \<comment> \<open>the match that starts right after \<open>p\<close>\<close>
  have r1: "run Space s ?n = length ws1"
    unfolding s using run_at[of ws1 Space "CHR ''('' # ds @ CHR '')'' # ws2" p] w1 paren_not_space
    by simp
  have r2: "run Space s (?q + 6) = length ws2"
  proof -
    let ?pre = "p @ ws1 @ CHR ''('' # ds @ [CHR '')'']"
    have e: "s = ?pre @ ws2 @ []" unfolding s by simp
    have l: "?q + 6 = length ?pre" using ds(1) by simp
    have "run Space (?pre @ ws2 @ []) (length ?pre) = length ws2"
      using w2 by (intro run_at) simp_all
    then show ?thesis unfolding l e .
  qed
  have f1: "\<exists>ms. rmatch (Star Space) s (?n, None) = (?q, None) # ms"
    by (rule first_Star[OF r1])
  have f2: "\<exists>ms. rmatch (Chr CHR ''('') s (?q, None) = (Suc ?q, None) # ms"
  proof (rule first_Chr)
    show "?q < length s" using len by simp
    show "s ! ?q = CHR ''(''" by (rule sq)
  qed
  have f3: "\<exists>ms. rmatch (Cap (rep 4 (Cls Digit))) s (Suc ?q, None) = (Suc ?q + 4, ?g) # ms"
  proof (rule first_digits4)
    show "Suc ?q + 4 \<le> length s" using len by simp
    show "is_digit (s ! (Suc ?q + t))" if "t < 4" for t using that by (rule sd)
  qed
  have f4: "\<exists>ms. rmatch (Chr CHR '')'') s (Suc ?q + 4, ?g) = (Suc (Suc ?q + 4), ?g) # ms"
  proof (rule first_Chr)
    show "Suc ?q + 4 < length s" using len by simp
    have "Suc ?q + 4 = ?q + 5" by simp
    with sc show "s ! (Suc ?q + 4) = CHR '')''" by (simp only:)
  qed
  have f5: "\<exists>ms. rmatch (Star Space) s (Suc (Suc ?q + 4), ?g) = (length s, ?g) # ms"
  proof -
    have a: "Suc (Suc ?q + 4) = ?q + 6" by simp
    have b: "?q + 6 + length ws2 = length s" using len by simp
    from first_Star[OF r2, of ?g] show ?thesis unfolding a b .
  qed
  have f6: "\<exists>ms. rmatch (Seq Eos Eps) s (length s, ?g) = (length s, ?g) # ms"
    by (rule first_Eos)
  have "\<exists>ms. rmatch year_pattern s (?n, None) = (length s, ?g) # ms"
    unfolding year_pattern_def seqs.simps
    by (rule first_Seq[OF f1 first_Seq[OF f2 first_Seq[OF f3 first_Seq[OF f4 first_Seq[OF f5 f6]]]]])
  then obtain ms where hit: "rmatch year_pattern s (?n, None) = (length s, ?g) # ms" by blast
  have "?n < Suc (length s)" using len by simp
  then have "[0 ..< Suc (length s)] = [0 ..< ?n] @ [?n ..< Suc (length s)]"
    by (metis less_imp_le_nat upt_add_eq_append le_add_diff_inverse zero_le add_0)
  also have "[?n ..< Suc (length s)] = ?n # [Suc ?n ..< Suc (length s)]"
    using \<open>?n < Suc (length s)\<close> by (rule upt_conv_Cons)
  finally have "[0 ..< Suc (length s)] = [0 ..< ?n] @ ?n # [Suc ?n ..< Suc (length s)]" .
  then have "re_search year_pattern s = search_at year_pattern s (?n # [Suc ?n ..< Suc (length s)])"
    unfolding re_search_def using search_at_skip[of "[0 ..< ?n]" year_pattern s] none by simp
  with hit show "re_search year_pattern s = Some (?n, length s, ?g)" by simp
  have "rmatch (Chr CHR ''('') s st = []" if "fst st \<ge> length s" for st
    using that by (cases st) simp
  then have "rmatch (Seq (Chr CHR ''('') r) s (length s, None) = []" for r by simp
  moreover have "run Space s (length s) = 0" by (simp add: run_def)
  ultimately show "rmatch year_pattern s (length s, None) = []"
    unfolding year_pattern_def seqs.simps by simp
qed


lemma parenthesized_year:
  assumes p: "p = [] \<or> \<not> is_space (last p)"
    and w1: "\<And>c. c \<in> set ws1 \<Longrightarrow> is_space c" and w2: "\<And>c. c \<in> set ws2 \<Longrightarrow> is_space c"
    and ds: "length ds = 4" "\<And>c. c \<in> set ds \<Longrightarrow> is_digit c"
    and s: "s = p @ ws1 @ CHR ''('' # ds @ CHR '')'' # ws2"
  shows "parse_movie_with_year s = (strip p, Some (int_of_digits ds))"
    and "int_of_digits ds \<noteq> 0 \<Longrightarrow> parse_title_with_year s = (strip p, Some (int_of_digits ds))"
proof -
  let ?n = "length p"
  let ?q = "length p + length ws1"
  let ?m = "(?n, length s, Some (Suc ?q, Suc ?q + 4))"
  note sr = parenthesized_search[OF p w1 w2 ds s]
  have len: "length s = ?q + 6 + length ws2" using s ds(1) by simp
  have last: "[length s ..< Suc (length s)] = [length s]" by simp
  have "search_at year_pattern s [length s ..< Suc (length s)] = None"
    unfolding last using sr(2) by simp
  then have tail: "sub_from year_pattern s (length s) = []"
    by (subst sub_from.simps, simp only: option.case, simp)
  have "?n < length s" using len by simp
  moreover have "search_at year_pattern s [0 ..< Suc (length s)] = Some ?m"
    using sr(1) by (simp only: re_search_def)
  ultimately have "sub_from year_pattern s 0 = take ?n s"
    using tail by (subst sub_from.simps, simp only: option.case prod.case, simp)
  then have sub: "re_sub year_pattern s = p"
    unfolding re_sub_def s by simp
  have "drop (Suc ?q) s = ds @ CHR '')'' # ws2"
    unfolding s by simp
  then have grp: "group1 s ?m = ds"
    using ds(1) by (simp add: group1_def)
  from sr(1) sub grp show pm: "parse_movie_with_year s = (strip p, Some (int_of_digits ds))"
    by (simp add: parse_movie_with_year_def)
  show "parse_title_with_year s = (strip p, Some (int_of_digits ds))" if "int_of_digits ds \<noteq> 0"
    using pm that by (simp add: parse_title_with_year_def truthy_def)
qed

section \<open>Lemmas about the similarity ratio\<close>

lemma find_longest_match_bounds:
  assumes "find_longest_match a b alo ahi blo bhi = (i, j, k)" and "k \<noteq> 0"
  shows "alo \<le> i \<and> blo \<le> j \<and> i + k \<le> ahi \<and> j + k \<le> bhi"
  using find_longest_match_ok[of alo ahi blo bhi a b] assms
  by (auto simp: best_ok_def max_def split: if_splits)

lemma matching_blocks_sum:
  "sum_list (map bsize (matching_blocks a b alo ahi blo bhi)) \<le> min (ahi - alo) (bhi - blo)"
proof (induction a b alo ahi blo bhi rule: matching_blocks.induct)
  case (1 a b alo ahi blo bhi)
  obtain i j k where f: "find_longest_match a b alo ahi blo bhi = (i, j, k)"
    by (cases "find_longest_match a b alo ahi blo bhi") auto
  show ?case
  proof (cases "k = 0")
    case True
    with f show ?thesis by (subst matching_blocks.simps) simp
  next
    case kpos: False
    note bd = find_longest_match_bounds[OF f kpos]
    let ?L = "if alo < i \<and> blo < j then matching_blocks a b alo i blo j else []"
    let ?R = "if i + k < ahi \<and> j + k < bhi then matching_blocks a b (i + k) ahi (j + k) bhi else []"
    have L: "sum_list (map bsize ?L) \<le> min (i - alo) (j - blo)"
    proof (cases "alo < i \<and> blo < j")
      case True
      from "1.IH"(1)[OF f[symmetric] refl kpos True] True show ?thesis by simp
    next
      case False
      then show ?thesis by auto
    qed
    have R: "sum_list (map bsize ?R) \<le> min (ahi - (i + k)) (bhi - (j + k))"
    proof (cases "i + k < ahi \<and> j + k < bhi")
      case True
      from "1.IH"(2)[OF f[symmetric] refl kpos True] True show ?thesis by simp
    next
      case False
      then show ?thesis by auto
    qed
    have "matching_blocks a b alo ahi blo bhi = (i, j, k) # ?L @ ?R"
      using f kpos by (subst matching_blocks.simps) simp
    then have "sum_list (map bsize (matching_blocks a b alo ahi blo bhi))
        = k + sum_list (map bsize ?L) + sum_list (map bsize ?R)"
      by (simp add: bsize_def)
    with L R bd show ?thesis by linarith
  qed
qed


lemma ratio_range: "0 \<le> ratio a b \<and> ratio a b \<le> 1"
proof -
  let ?m = "sum_list (map bsize (matching_blocks a b 0 (length a) 0 (length b)))"
  have "?m \<le> min (length a) (length b)"
    using matching_blocks_sum[of a b 0 "length a" 0 "length b"] by simp
  then have "2 * ?m \<le> length a + length b" by simp
  then have "(2 * of_nat ?m :: rat) \<le> of_nat (length a + length b)"
    by (metis of_nat_le_iff of_nat_mult of_nat_numeral)
  then show ?thesis
    by (auto simp: ratio_def Let_def divide_le_eq_1)
qed

lemma outer_loop_empty_b: "outer_loop a [] blo bhi is (j2len, best) = best"
  by (induction "is" arbitrary: j2len) (simp_all add: b2j_def popular_def)

lemma find_longest_match_empty_b: "find_longest_match a [] 0 n 0 0 = (0, 0, 0)"
  unfolding find_longest_match_def outer_loop_empty_b
  by (simp add: extend_left.simps extend_right.simps)

lemma ratio_empty_b: "a \<noteq> [] \<Longrightarrow> ratio a [] = 0"
  by (simp add: ratio_def find_longest_match_empty_b matching_blocks.simps)

lemma runs_end_empty: "runs_end a b n Map.empty"
  by (simp add: runs_end_def)

lemma j2lenget_run:
  assumes "runs_end a b i j2len"
  shows "j2lenget j2len j \<le> i \<and> j2lenget j2len j \<le> j
       \<and> (\<forall>t < j2lenget j2len j. a ! (i - Suc t) = b ! (j - Suc t))"
proof (cases "j = 0")
  case True
  then show ?thesis by (simp add: j2lenget_def)
next
  case False
  show ?thesis
  proof (cases "j2len (j - 1)")
    case None
    with False show ?thesis by (simp add: j2lenget_def)
  next
    case (Some v)
    with assms have "v \<le> i \<and> v \<le> Suc (j - 1) \<and> (\<forall>t < v. a ! (i - Suc t) = b ! (j - 1 - t))"
      unfolding runs_end_def by blast
    with False Some show ?thesis by (simp add: j2lenget_def)
  qed
qed

lemma run_extended:
  assumes "v \<le> i" and "v \<le> j" and "\<forall>t < v. a ! (i - Suc t) = b ! (j - Suc t)" and "a ! i = b ! j"
  shows "\<forall>t < Suc v. a ! (i - t) = b ! (j - t)"
proof (intro allI impI)
  fix t
  assume "t < Suc v"
  show "a ! (i - t) = b ! (j - t)"
  proof (cases t)
    case 0
    with assms(4) show ?thesis by simp
  next
    case (Suc t')
    with \<open>t < Suc v\<close> assms(3) show ?thesis by simp
  qed
qed

lemma best_from_run:
  assumes "k \<le> Suc i" and "k \<le> Suc j" and "\<forall>t < k. a ! (i - t) = b ! (j - t)"
  shows "best_valid a b (Suc i - k, Suc j - k, k)"
  unfolding best_valid_def
proof (clarsimp)
  fix t
  assume t: "t < k"
  then have "k - Suc t < k" by simp
  with assms(3) have "a ! (i - (k - Suc t)) = b ! (j - (k - Suc t))" by blast
  moreover have "i - (k - Suc t) = Suc i - k + t" "j - (k - Suc t) = Suc j - k + t"
    using t assms(1,2) by simp_all
  ultimately show "a ! (Suc i - k + t) = b ! (Suc j - k + t)" by simp
qed

lemma inner_loop_valid:
  assumes "runs_end a b i j2len" and "\<And>j. j \<in> set js \<Longrightarrow> b ! j = a ! i"
    and "runs_end a b (Suc i) new" and "best_valid a b best"
    and "inner_loop j2len i blo bhi js (new, best) = (new', best')"
  shows "runs_end a b (Suc i) new' \<and> best_valid a b best'"
  using assms(2-5)
proof (induction js arbitrary: new best)
  case Nil
  then show ?case by simp
next
  case (Cons j js)
  obtain bi bj bs where best: "best = (bi, bj, bs)" by (cases best) auto
  have tl: "\<And>j'. j' \<in> set js \<Longrightarrow> b ! j' = a ! i" using Cons.prems(1) by simp
  show ?case
  proof (cases "j < blo")
    case True
    with Cons.prems best have "inner_loop j2len i blo bhi js (new, best) = (new', best')" by simp
    from Cons.IH[OF tl Cons.prems(2,3) this] show ?thesis .
  next
    case lo: False
    show ?thesis
    proof (cases "bhi \<le> j")
      case True
      with Cons.prems lo best show ?thesis by simp
    next
      case hi: False
      define v where "v = j2lenget j2len j"
      note jr = j2lenget_run[OF assms(1), of j, folded v_def]
      have aij: "a ! i = b ! j" using Cons.prems(1)[of j] by simp
      from jr aij have ext: "\<forall>t < Suc v. a ! (i - t) = b ! (j - t)"
        by (intro run_extended) simp_all
      have r: "runs_end a b (Suc i) (new(j \<mapsto> Suc v))"
        using Cons.prems(2) jr ext unfolding runs_end_def by auto
      have bnew: "best_valid a b (Suc i - Suc v, Suc j - Suc v, Suc v)"
        using jr ext by (intro best_from_run) simp_all
      have bv: "best_valid a b (if bs < Suc v then (Suc i - Suc v, Suc j - Suc v, Suc v) else (bi, bj, bs))"
        using bnew Cons.prems(3) best by (simp only: if_split) simp
      from Cons.prems(4) lo hi best
      have "inner_loop j2len i blo bhi js
              (new(j \<mapsto> Suc v), if bs < Suc v then (Suc i - Suc v, Suc j - Suc v, Suc v) else (bi, bj, bs))
            = (new', best')"
        by (auto simp: v_def Let_def split: if_splits)
      from Cons.IH[OF tl r bv this] show ?thesis .
    qed
  qed
qed

lemma b2j_hits: "j \<in> set (b2j b c) \<Longrightarrow> b ! j = c"
  by (auto simp: b2j_def split: if_splits)

lemma outer_loop_valid:
  assumes "runs_end a b m j2len" and "best_valid a b best"
  shows "best_valid a b (outer_loop a b blo bhi [m ..< ahi] (j2len, best))"
  using assms
proof (induction "ahi - m" arbitrary: m j2len best)
  case 0
  then show ?case by simp
next
  case (Suc n)
  then have lt: "m < ahi" by simp
  obtain new' best' where il: "inner_loop j2len m blo bhi (b2j b (a ! m)) (Map.empty, best) = (new', best')"
    by (cases "inner_loop j2len m blo bhi (b2j b (a ! m)) (Map.empty, best)") auto
  from inner_loop_valid[OF Suc.prems(1) b2j_hits runs_end_empty Suc.prems(2) il]
  have ok: "runs_end a b (Suc m) new'" "best_valid a b best'" by auto
  have "best_valid a b (outer_loop a b blo bhi [Suc m ..< ahi] (new', best'))"
    using Suc.hyps(2) ok by (intro Suc.hyps(1)) auto
  with lt il show ?case by (simp add: upt_conv_Cons)
qed

lemma extend_left_valid:
  "best_valid a b best \<Longrightarrow> best_valid a b (extend_left junk a b alo blo best)"
proof (induction junk a b alo blo best rule: extend_left.induct)
  case (1 junk a b alo blo besti bestj bestsize)
  show ?case
  proof (cases "alo < besti \<and> blo < bestj \<and> isbjunk (b ! (bestj - 1)) = junk
         \<and> a ! (besti - 1) = b ! (bestj - 1)")
    case True
    have "best_valid a b (besti - 1, bestj - 1, bestsize + 1)"
      unfolding best_valid_def
    proof (clarsimp)
      fix t
      assume "t < Suc bestsize"
      then show "a ! (besti - Suc 0 + t) = b ! (bestj - Suc 0 + t)"
        using True "1.prems" by (cases t) (auto simp: best_valid_def)
    qed
    from "1.IH"[OF True this] True show ?thesis by (subst extend_left.simps) simp
  next
    case False
    with "1.prems" show ?thesis by (subst extend_left.simps) auto
  qed
qed

lemma extend_right_valid:
  "best_valid a b best \<Longrightarrow> best_valid a b (extend_right junk a b ahi bhi best)"
proof (induction junk a b ahi bhi best rule: extend_right.induct)
  case (1 junk a b ahi bhi besti bestj bestsize)
  show ?case
  proof (cases "besti + bestsize < ahi \<and> bestj + bestsize < bhi \<and> isbjunk (b ! (bestj + bestsize)) = junk
         \<and> a ! (besti + bestsize) = b ! (bestj + bestsize)")
    case True
    have "best_valid a b (besti, bestj, bestsize + 1)"
      using True "1.prems" by (auto simp: best_valid_def less_Suc_eq)
    from "1.IH"[OF True this] True show ?thesis by (subst extend_right.simps) simp
  next
    case False
    with "1.prems" show ?thesis by (subst extend_right.simps) auto
  qed
qed

lemma find_longest_match_valid:
  "best_valid a b (find_longest_match a b alo ahi blo bhi)"
proof -
  have "best_valid a b (alo, blo, 0)" by (simp add: best_valid_def)
  then have "best_valid a b (outer_loop a b blo bhi [alo ..< ahi] (Map.empty, alo, blo, 0))"
    by (intro outer_loop_valid) (simp_all add: runs_end_empty)
  then show ?thesis
    unfolding find_longest_match_def
    by (intro extend_right_valid extend_left_valid)
qed


lemma find_longest_match_equal:
  assumes "find_longest_match a b alo ahi blo bhi = (i, j, k)" and "t < k"
  shows "a ! (i + t) = b ! (j + t)"
  using find_longest_match_valid[of a b alo ahi blo bhi] assms by (simp add: best_valid_def)

lemma matching_blocks_full:
  assumes "sum_list (map bsize (matching_blocks a b alo ahi blo bhi)) = ahi - alo"
    and "ahi - alo = bhi - blo" and "alo \<le> ahi" and "blo \<le> bhi"
  shows "\<forall>t < ahi - alo. a ! (alo + t) = b ! (blo + t)"
  using assms
proof (induction a b alo ahi blo bhi rule: matching_blocks.induct)
  case (1 a b alo ahi blo bhi)
  obtain i j k where f: "find_longest_match a b alo ahi blo bhi = (i, j, k)"
    by (cases "find_longest_match a b alo ahi blo bhi") auto
  show ?case
  proof (cases "k = 0")
    case True
    with f have "matching_blocks a b alo ahi blo bhi = []"
      by (subst matching_blocks.simps) simp
    with "1.prems"(1) show ?thesis by simp
  next
    case kpos: False
    note bd = find_longest_match_bounds[OF f kpos]
    let ?cl = "alo < i \<and> blo < j"
    let ?cr = "i + k < ahi \<and> j + k < bhi"
    let ?L = "if ?cl then matching_blocks a b alo i blo j else []"
    let ?R = "if ?cr then matching_blocks a b (i + k) ahi (j + k) bhi else []"
    have L: "sum_list (map bsize ?L) \<le> min (i - alo) (j - blo)"
      using matching_blocks_sum[of a b alo i blo j] by simp
    have R: "sum_list (map bsize ?R) \<le> min (ahi - (i + k)) (bhi - (j + k))"
      using matching_blocks_sum[of a b "i + k" ahi "j + k" bhi] by simp
    have "matching_blocks a b alo ahi blo bhi = (i, j, k) # ?L @ ?R"
      using f kpos by (subst matching_blocks.simps) simp
    then have "sum_list (map bsize (matching_blocks a b alo ahi blo bhi))
        = k + sum_list (map bsize ?L) + sum_list (map bsize ?R)"
      by (simp add: bsize_def)
    with "1.prems" L R bd
    have eqs: "sum_list (map bsize ?L) = i - alo" "i - alo = j - blo"
        "sum_list (map bsize ?R) = ahi - (i + k)" "ahi - (i + k) = bhi - (j + k)"
      by linarith+
    have left: "\<forall>t < i - alo. a ! (alo + t) = b ! (blo + t)"
    proof (cases ?cl)
      case True
      with eqs(1) have "sum_list (map bsize (matching_blocks a b alo i blo j)) = i - alo" by simp
      from "1.IH"(1)[OF f[symmetric] refl kpos True this eqs(2)] bd show ?thesis by simp
    next
      case False
      with eqs(2) bd have "i - alo = 0" by linarith
      then show ?thesis by simp
    qed
    have right: "\<forall>t < ahi - (i + k). a ! (i + k + t) = b ! (j + k + t)"
    proof (cases ?cr)
      case True
      with eqs(3) have "sum_list (map bsize (matching_blocks a b (i + k) ahi (j + k) bhi)) = ahi - (i + k)"
        by simp
      from "1.IH"(2)[OF f[symmetric] refl kpos True this eqs(4)] bd show ?thesis by simp
    next
      case False
      with eqs(4) bd have "ahi - (i + k) = 0" by linarith
      then show ?thesis by simp
    qed
    show ?thesis
    proof (intro allI impI)
      fix t
      assume t: "t < ahi - alo"
      consider "t < i - alo" | "i - alo \<le> t" "t < i - alo + k" | "i - alo + k \<le> t" by linarith
      then show "a ! (alo + t) = b ! (blo + t)"
      proof cases
        case 1
        with left show ?thesis by simp
      next
        case 2
        define t' where "t' = t - (i - alo)"
        from 2 have "t' < k" unfolding t'_def by linarith
        from find_longest_match_equal[OF f this] have "a ! (i + t') = b ! (j + t')" .
        moreover have "i + t' = alo + t" "j + t' = blo + t"
          unfolding t'_def using 2 bd eqs(2) by linarith+
        ultimately show ?thesis by simp
      next
        case 3
        define t' where "t' = t - (i - alo + k)"
        from 3 t bd have "t' < ahi - (i + k)" unfolding t'_def by linarith
        with right have "a ! (i + k + t') = b ! (j + k + t')" by simp
        moreover have "i + k + t' = alo + t" "j + k + t' = blo + t"
          unfolding t'_def using 3 bd eqs(2) by linarith+
        ultimately show ?thesis by simp
      qed
    qed
  qed
qed

lemma ratio_one:
  assumes "ratio a b = 1"
  shows "a = b"
proof (cases "length a + length b = 0")
  case True
  then show ?thesis by simp
next
  case False
  let ?m = "sum_list (map bsize (matching_blocks a b 0 (length a) 0 (length b)))"
  from assms False have "(2 * of_nat ?m :: rat) = of_nat (length a + length b)"
    by (simp add: ratio_def Let_def)
  then have "(of_nat (2 * ?m) :: rat) = of_nat (length a + length b)"
    by simp
  then have two: "2 * ?m = length a + length b"
    by (simp only: of_nat_eq_iff)
  have "?m \<le> min (length a) (length b)"
    using matching_blocks_sum[of a b 0 "length a" 0 "length b"] by simp
  with two have m: "?m = length a" "length a = length b" by simp_all
  from matching_blocks_full[of a b 0 "length a" 0 "length b"] m
  have "\<forall>t < length a. a ! t = b ! t" by simp
  with m(2) show ?thesis by (simp add: list_eq_iff_nth_eq)
qed

lemma judge_strict:
  assumes "judge title index x = (q, keep)" and "x \<noteq> lower title"
  shows "q < 1"
proof -
  from assms have q: "q = ratio (lower title) x"
    by (auto simp: judge_def Let_def split: if_splits)
  with ratio_one[of "lower title" x] assms(2) have "q \<noteq> 1" by auto
  with ratio_range[of "lower title" x] q show ?thesis by simp
qed

section \<open>Lemmas about the matcher\<close>

lemma map_of_dict_set: "map_of (dict_set res key v) k = (if k = key then Some v else map_of res k)"
  by (induction res key v rule: dict_set.induct) auto

lemma score_of_dict_set: "score_of (dict_set res ''_score'' (PFloat q)) = q"
  by (simp add: score_of_def dict_get_def map_of_dict_set)

lemma id_key_dict_set: "id_key (dict_set res ''_score'' v) = id_key res"
  by (simp add: id_key_def dict_item_def map_of_dict_set)

lemma judge_exact: "judge title index (lower title) = (1, True)"
  by (simp add: judge_def)

lemma judge_range: "judge title index x = (q, keep) \<Longrightarrow> 0 \<le> q \<and> q \<le> 1"
  using ratio_range[of "lower title" x] by (auto simp: judge_def Let_def split: if_splits)

lemma lower_eq_Nil: "lower s = [] \<longleftrightarrow> s = []" "[] = lower s \<longleftrightarrow> s = []"
  by (auto simp: lower_def)

lemma judge_empty_name: "title \<noteq> [] \<Longrightarrow> judge title index [] = (0, False)"
  by (simp add: judge_def lower_eq_Nil ratio_empty_b FUZZY_MATCH_THRESHOLD_def
      RELAXED_MATCH_THRESHOLD_def TOP_RESULT_THRESHOLD_def)

lemma body_Inr:
  assumes "body field title index res = Inr (res', keep)"
  shows "\<exists>x q. py_lower (dict_get res field (PStr [])) = Inr x \<and> judge title index x = (q, keep)
      \<and> res' = dict_set res ''_score'' (PFloat q)"
  using assms by (auto simp: body_def split: sum.splits prod.splits)

lemma scan_members:
  "scan field title index rs = Inr ms \<Longrightarrow> m \<in> set ms
   \<Longrightarrow> \<exists>r \<in> set rs. \<exists>i. body field title i r = Inr (m, True)"
proof (induction rs arbitrary: index ms)
  case Nil
  then show ?case by simp
next
  case (Cons r rs)
  from Cons.prems(1) obtain r' keep ms' where b: "body field title index r = Inr (r', keep)"
      and s: "scan field title (Suc index) rs = Inr ms'"
      and ms: "ms = (if keep then r' # ms' else ms')"
    by (auto split: sum.splits prod.splits)
  show ?case
  proof (cases "keep \<and> m = r'")
    case True
    with b show ?thesis by auto
  next
    case False
    with ms Cons.prems(2) have "m \<in> set ms'" by (auto split: if_splits)
    from Cons.IH[OF s this] show ?thesis by auto
  qed
qed

lemma dedup_subset: "dedup seen ms = Inr us \<Longrightarrow> set us \<subseteq> set ms"
proof (induction ms arbitrary: seen us)
  case Nil
  then show ?case by simp
next
  case (Cons m ms)
  from Cons.prems obtain k where k: "id_key m = Inr k"
    by (auto split: sum.splits)
  show ?case
  proof (cases "k \<in> seen")
    case True
    with Cons.prems k have "dedup seen ms = Inr us" by simp
    from Cons.IH[OF this] show ?thesis by auto
  next
    case False
    with Cons.prems k obtain us' where "dedup (insert k seen) ms = Inr us'" "us = m # us'"
      by (auto split: sum.splits)
    with Cons.IH[of "insert k seen" us'] show ?thesis by auto
  qed
qed

lemma match_results_members:
  assumes "match_results field title rs = Inr out" and "m \<in> set out"
  shows "\<exists>r \<in> set rs. \<exists>i. body field title i r = Inr (m, True)"
proof -
  from assms have ne: "rs \<noteq> []" by (auto simp: match_results_def)
  with assms(1) obtain ms us where s: "scan field title 0 rs = Inr ms"
      and d: "dedup {} ms = Inr us" and out: "out = take 5 (sort_by_score us)"
    by (auto simp: match_results_def split: sum.splits)
  from assms(2) out have "m \<in> set us"
    by (auto simp: sort_by_score_def dest: in_set_takeD)
  with dedup_subset[OF d] have "m \<in> set ms" by blast
  from scan_members[OF s this] show ?thesis .
qed


lemma body_total:
  assumes "name_ok field r"
  shows "\<exists>m keep. body field title index r = Inr (m, keep)"
proof -
  from assms obtain x where "py_lower (dict_get r field (PStr [])) = Inr x"
    by (auto simp: name_ok_def dict_get_def split: option.splits pyval.splits)
  then show ?thesis
    by (cases "judge title index x") (simp add: body_def)
qed

lemma scan_total:
  "(\<And>r. r \<in> set rs \<Longrightarrow> name_ok field r) \<Longrightarrow> \<exists>ms. scan field title index rs = Inr ms"
proof (induction rs arbitrary: index)
  case Nil
  then show ?case by simp
next
  case (Cons r rs)
  from Cons.prems body_total[of field r title index]
  obtain m keep where b: "body field title index r = Inr (m, keep)" by auto
  from Cons.IH[of "Suc index"] Cons.prems
  obtain ms where "scan field title (Suc index) rs = Inr ms" by auto
  with b show ?case by simp
qed

lemma dedup_total:
  "(\<And>m. m \<in> set ms \<Longrightarrow> id_ok m) \<Longrightarrow> \<exists>us. dedup seen ms = Inr us"
proof (induction ms arbitrary: seen)
  case Nil
  then show ?case by simp
next
  case (Cons m ms)
  from Cons.prems[of m] obtain k where k: "id_key m = Inr k"
    by (cases "id_key m") (auto simp: id_ok_def)
  from Cons.IH[of seen] Cons.prems obtain us1 where u1: "dedup seen ms = Inr us1" by auto
  from Cons.IH[of "insert k seen"] Cons.prems
  obtain us2 where u2: "dedup (insert k seen) ms = Inr us2" by auto
  from k u1 u2 show ?case by simp
qed

lemma match_results_total:
  assumes "\<And>r. r \<in> set rs \<Longrightarrow> name_ok field r \<and> id_ok r"
  shows "\<exists>out. match_results field title rs = Inr out"
proof -
  from scan_total[of rs field title 0] assms
  obtain ms where s: "scan field title 0 rs = Inr ms" by auto
  have "id_ok m" if "m \<in> set ms" for m
  proof -
    from scan_members[OF s that] obtain r i where r: "r \<in> set rs"
        and b: "body field title i r = Inr (m, True)" by auto
    from body_Inr[OF b] obtain q where "m = dict_set r ''_score'' (PFloat q)" by auto
    with assms[OF r] show ?thesis by (simp add: id_ok_def id_key_dict_set)
  qed
  from dedup_total[of ms "{}", OF this] obtain us where "dedup {} ms = Inr us" by auto
  with s show ?thesis by (simp add: match_results_def)
qed

lemma first_pos_Cons:
  "first_pos (m # ms) u = (if id_key m = id_key u then 0 else Suc (first_pos ms u))"
  by (simp add: first_pos_def)

lemma first_pos_shift:
  assumes "sorted_wrt (\<lambda>u v. first_pos ms u < first_pos ms v) us"
    and "\<And>u. u \<in> set us \<Longrightarrow> id_key m \<noteq> id_key u"
  shows "sorted_wrt (\<lambda>u v. first_pos (m # ms) u < first_pos (m # ms) v) us"
proof (rule sorted_wrt_mono_rel[OF _ assms(1)])
  fix x y
  assume "x \<in> set us" "y \<in> set us" "first_pos ms x < first_pos ms y"
  then show "first_pos (m # ms) x < first_pos (m # ms) y"
    using assms(2) by (simp add: first_pos_Cons)
qed

lemma dedup_spec:
  assumes "dedup seen ms = Inr us"
  shows "distinct (map id_key us) \<and> (\<forall>u \<in> set us. \<forall>k \<in> seen. id_key u \<noteq> Inr k)
       \<and> sorted_wrt (\<lambda>u v. first_pos ms u < first_pos ms v) us
       \<and> (\<forall>u \<in> set us. find (\<lambda>x. id_key x = id_key u) ms = Some u)"
  using assms
proof (induction ms arbitrary: seen us)
  case Nil
  then show ?case by simp
next
  case (Cons m ms)
  from Cons.prems obtain k where k: "id_key m = Inr k"
    by (auto split: sum.splits)
  show ?case
  proof (cases "k \<in> seen")
    case True
    with Cons.prems k have d: "dedup seen ms = Inr us" by simp
    from Cons.IH[OF d] have ih: "distinct (map id_key us)"
        "\<forall>u \<in> set us. \<forall>k \<in> seen. id_key u \<noteq> Inr k"
        "sorted_wrt (\<lambda>u v. first_pos ms u < first_pos ms v) us"
        "\<forall>u \<in> set us. find (\<lambda>x. id_key x = id_key u) ms = Some u"
      by simp_all
    have ne: "id_key m \<noteq> id_key u" if "u \<in> set us" for u
    proof
      assume "id_key m = id_key u"
      with k have "id_key u = Inr k" by simp
      with ih(2) that True show False by blast
    qed
    have "sorted_wrt (\<lambda>u v. first_pos (m # ms) u < first_pos (m # ms) v) us"
      using ih(3) ne by (rule first_pos_shift)
    moreover have "\<forall>u \<in> set us. find (\<lambda>x. id_key x = id_key u) (m # ms) = Some u"
      using ih(4) ne by simp
    ultimately show ?thesis using ih(1,2) by simp
  next
    case False
    with Cons.prems k obtain us' where d: "dedup (insert k seen) ms = Inr us'" and us: "us = m # us'"
      by (auto split: sum.splits)
    from Cons.IH[OF d] have ih: "distinct (map id_key us')"
        "\<forall>u \<in> set us'. \<forall>k' \<in> insert k seen. id_key u \<noteq> Inr k'"
        "sorted_wrt (\<lambda>u v. first_pos ms u < first_pos ms v) us'"
        "\<forall>u \<in> set us'. find (\<lambda>x. id_key x = id_key u) ms = Some u"
      by simp_all
    have ne: "id_key m \<noteq> id_key u" if "u \<in> set us'" for u
    proof
      assume "id_key m = id_key u"
      with k have "id_key u = Inr k" by simp
      with ih(2) that show False by blast
    qed
    have s: "sorted_wrt (\<lambda>u v. first_pos (m # ms) u < first_pos (m # ms) v) us'"
      using ih(3) ne by (rule first_pos_shift)
    have "distinct (map id_key us)"
      using ih(1) ne us by auto
    moreover have "\<forall>u \<in> set us. \<forall>k' \<in> seen. id_key u \<noteq> Inr k'"
      using ih(2) us k False by auto
    moreover have "sorted_wrt (\<lambda>u v. first_pos (m # ms) u < first_pos (m # ms) v) us"
      using s ne us by (simp add: first_pos_Cons)
    moreover have "\<forall>u \<in> set us. find (\<lambda>x. id_key x = id_key u) (m # ms) = Some u"
      using ih(4) ne us by simp
    ultimately show ?thesis by simp
  qed
qed

lemma sorted_ties:
  assumes "sorted (map f xs)" and "\<And>k. sorted_wrt P (filter (\<lambda>y. f y = k) xs)"
  shows "sorted_wrt (\<lambda>u v. f u < f v \<or> (f u = f v \<and> P u v)) xs"
  using assms
proof (induction xs)
  case Nil
  then show ?case by simp
next
  case (Cons x xs)
  have tl: "sorted_wrt P (filter (\<lambda>y. f y = k) xs)" for k
    using Cons.prems(2)[of k] by (cases "f x = k") simp_all
  have "f x < f y \<or> (f x = f y \<and> P x y)" if "y \<in> set xs" for y
  proof (cases "f x = f y")
    case True
    with Cons.prems(2)[of "f x"] that show ?thesis by simp
  next
    case False
    with Cons.prems(1) that show ?thesis by (simp add: less_le)
  qed
  with Cons.IH[OF _ tl] Cons.prems(1) show ?case by simp
qed

lemma sort_by_score_ranked:
  assumes "sorted_wrt (\<lambda>u v. first_pos ms u < first_pos ms v) us"
  shows "sorted_wrt (ranked_before ms) (sort_by_score us)"
proof -
  let ?f = "\<lambda>x. - score_of x"
  let ?P = "\<lambda>u v. first_pos ms u < first_pos ms v"
  have "sorted (map ?f (sort_key ?f us))" by (rule sorted_sort_key)
  moreover have "sorted_wrt ?P (filter (\<lambda>y. ?f y = k) (sort_key ?f us))" for k
    unfolding sort_key_stable using assms by (rule sorted_wrt_filter)
  ultimately have "sorted_wrt (\<lambda>u v. ?f u < ?f v \<or> (?f u = ?f v \<and> ?P u v)) (sort_key ?f us)"
    by (rule sorted_ties)
  then show ?thesis
    unfolding sort_by_score_def ranked_before_def by simp
qed

lemma match_results_parts:
  assumes "match_results field title rs = Inr out"
  shows "\<exists>ms us. scan field title 0 rs = Inr ms \<and> dedup {} ms = Inr us
       \<and> out = take 5 (sort_by_score us)"
proof (cases "rs = []")
  case True
  with assms show ?thesis by (simp add: match_results_def sort_by_score_def)
next
  case False
  with assms show ?thesis by (auto simp: match_results_def split: sum.splits)
qed

lemma scan_provider_order:
  assumes "scan field title index rs = Inr ms"
  shows "\<exists>bs. length bs = length rs
       \<and> (\<forall>i < length rs. body field title (index + i) (rs ! i) = Inr (bs ! i))
       \<and> ms = map fst (filter snd bs)"
  using assms
proof (induction rs arbitrary: index ms)
  case Nil
  then show ?case by simp
next
  case (Cons r rs)
  from Cons.prems obtain r' keep ms' where b: "body field title index r = Inr (r', keep)"
      and s: "scan field title (Suc index) rs = Inr ms'"
      and ms: "ms = (if keep then r' # ms' else ms')"
    by (auto split: sum.splits prod.splits)
  from Cons.IH[OF s] obtain bs where bs: "length bs = length rs"
      "\<forall>i < length rs. body field title (Suc index + i) (rs ! i) = Inr (bs ! i)"
      "ms' = map fst (filter snd bs)"
    by blast
  let ?bs = "(r', keep) # bs"
  have "body field title (index + i) ((r # rs) ! i) = Inr (?bs ! i)" if "i < length (r # rs)" for i
    using that b bs(2) by (cases i) simp_all
  moreover have "ms = map fst (filter snd ?bs)"
    using ms bs(3) by simp
  ultimately show ?case using bs(1) by (intro exI[of _ ?bs]) simp
qed

lemma ranking_shape_field:
  assumes "match_results field title rs = Inr out"
  shows "length out \<le> 5 \<and> distinct (map id_key out)
       \<and> (\<exists>ms bs. scan field title 0 rs = Inr ms
            \<and> length bs = length rs
            \<and> (\<forall>i < length rs. body field title i (rs ! i) = Inr (bs ! i))
            \<and> ms = map fst (filter snd bs)
            \<and> (\<forall>m \<in> set out. find (\<lambda>x. id_key x = id_key m) ms = Some m)
            \<and> sorted_wrt (ranked_before ms) out)"
proof -
  from match_results_parts[OF assms] obtain ms us where s: "scan field title 0 rs = Inr ms"
      and d: "dedup {} ms = Inr us" and out: "out = take 5 (sort_by_score us)"
    by blast
  from scan_provider_order[OF s] obtain bs where bs: "length bs = length rs"
      "\<forall>i < length rs. body field title i (rs ! i) = Inr (bs ! i)" "ms = map fst (filter snd bs)"
    by auto
  note sp = dedup_spec[OF d]
  have sub: "set out \<subseteq> set us"
    unfolding out sort_by_score_def using set_take_subset[of 5 "sort_key (\<lambda>x. - score_of x) us"]
    by simp
  have "distinct (map id_key (sort_by_score us))"
    using sp by (simp add: sort_by_score_def distinct_map)
  then have "distinct (map id_key out)"
    unfolding out take_map[symmetric] by (rule distinct_take)
  moreover have "sorted_wrt (ranked_before ms) out"
    unfolding out using sort_by_score_ranked[of ms us] sp by (intro sorted_wrt_take) simp
  moreover have "\<forall>m \<in> set out. find (\<lambda>x. id_key x = id_key m) ms = Some m"
    using sp sub by blast
  moreover have "length out \<le> 5" unfolding out by simp
  ultimately show ?thesis using s bs by blast
qed

lemma scan_scores:
  assumes "scan field title index rs = Inr ms" and "m \<in> set ms"
  shows "0 \<le> score_of m \<and> score_of m \<le> 1"
proof -
  from scan_members[OF assms] obtain r i where "body field title i r = Inr (m, True)" by auto
  from body_Inr[OF this] obtain x q where "judge title i x = (q, True)"
      "m = dict_set r ''_score'' (PFloat q)" by auto
  with judge_range[of title i x q True] show ?thesis by (simp add: score_of_dict_set)
qed

lemma scan_keeps:
  assumes "scan field title index rs = Inr ms" and "i < length rs"
    and "body field title (index + i) (rs ! i) = Inr (m, True)"
  shows "m \<in> set ms"
proof -
  from scan_provider_order[OF assms(1)] obtain bs where bs: "length bs = length rs"
      "\<forall>i < length rs. body field title (index + i) (rs ! i) = Inr (bs ! i)"
      "ms = map fst (filter snd bs)"
    by blast
  from bs(2) assms(2,3) have "bs ! i = (m, True)" by auto
  with bs(1) assms(2) have "(m, True) \<in> set bs" by (metis nth_mem)
  with bs(3) show ?thesis by force
qed

lemma dedup_keeps_first:
  assumes "dedup seen ms = Inr us" and "find (\<lambda>x. id_key x = id_key m) ms = Some m"
    and "\<And>k. k \<in> seen \<Longrightarrow> id_key m \<noteq> Inr k"
  shows "m \<in> set us"
  using assms
proof (induction ms arbitrary: seen us)
  case Nil
  then show ?case by simp
next
  case (Cons x ms)
  from Cons.prems(1) obtain k where k: "id_key x = Inr k"
    by (auto split: sum.splits)
  show ?case
  proof (cases "id_key x = id_key m")
    case True
    with Cons.prems(2) have xm: "x = m" by simp
    with Cons.prems(3) k have "k \<notin> seen" by auto
    with Cons.prems(1) k xm show ?thesis by (auto split: sum.splits)
  next
    case False
    with Cons.prems(2) have f: "find (\<lambda>x. id_key x = id_key m) ms = Some m" by simp
    show ?thesis
    proof (cases "k \<in> seen")
      case True
      with Cons.prems(1) k have "dedup seen ms = Inr us" by simp
      from Cons.IH[OF this f Cons.prems(3)] show ?thesis .
    next
      case nin: False
      with Cons.prems(1) k obtain us' where d: "dedup (insert k seen) ms = Inr us'" "us = x # us'"
        by (auto split: sum.splits)
      have "id_key m \<noteq> Inr k'" if "k' \<in> insert k seen" for k'
        using that False k Cons.prems(3) by auto
      from Cons.IH[OF d(1) f this] d(2) show ?thesis by simp
    qed
  qed
qed

lemma hd_sort_key_least:
  assumes "find (\<lambda>x. f x = c) xs = Some m" and "\<And>x. x \<in> set xs \<Longrightarrow> c \<le> f x"
  shows "sort_key f xs \<noteq> [] \<and> hd (sort_key f xs) = m"
  using assms
proof (induction xs)
  case Nil
  then show ?case by simp
next
  case (Cons x xs)
  show ?case
  proof (cases "f x = c")
    case True
    with Cons.prems(1) have "m = x" by simp
    moreover have "insort_key f x (sort_key f xs) = x # sort_key f xs"
      using True Cons.prems(2) by (intro insort_is_Cons) simp
    ultimately show ?thesis by simp
  next
    case False
    with Cons.prems(1) have f: "find (\<lambda>x. f x = c) xs = Some m" by simp
    from Cons.IH[OF f] Cons.prems(2) have ih: "sort_key f xs \<noteq> []" "hd (sort_key f xs) = m"
      by simp_all
    then obtain zs where zs: "sort_key f xs = m # zs" by (cases "sort_key f xs") auto
    from f have "f m = c" by (auto simp: find_Some_iff)
    with False Cons.prems(2)[of x] have "\<not> f x \<le> f m" by simp
    with zs show ?thesis by simp
  qed
qed

lemma find_exists: "x \<in> set xs \<Longrightarrow> P x \<Longrightarrow> \<exists>y. find P xs = Some y \<and> P y"
  by (induction xs) auto

lemma top_of_ranking:
  assumes "scan field title 0 rs = Inr ms" and "dedup {} ms = Inr us"
    and "find (\<lambda>x. score_of x = 1) us = Some m"
  shows "take 5 (sort_by_score us) \<noteq> [] \<and> hd (take 5 (sort_by_score us)) = m"
proof -
  have le: "- 1 \<le> - score_of x" if "x \<in> set us" for x
    using scan_scores[OF assms(1), of x] dedup_subset[OF assms(2)] that by auto
  have "find (\<lambda>x. - score_of x = - 1) us = Some m"
    using assms(3) by simp
  from hd_sort_key_least[of "\<lambda>x. - score_of x" "- 1" us m, OF this le]
  show ?thesis by (simp add: sort_by_score_def)
qed

lemma title_year_range:
  "(parse_movie_with_year s = (t, Some y) \<longrightarrow> 0 \<le> y \<and> y \<le> 9999)
   \<and> (parse_title_with_year s = (t', Some y') \<longrightarrow>
        1 \<le> y' \<and> y' \<le> 9999
        \<and> (\<not> truthy (snd (parse_movie_with_year s)) \<longrightarrow> 1900 \<le> y' \<and> y' \<le> 2099))"
proof (intro conjI impI)
  assume "parse_movie_with_year s = (t, Some y)"
  then show "0 \<le> y" "y \<le> 9999" using movie_year_range by blast+
next
  assume a: "parse_title_with_year s = (t', Some y')"
  obtain t0 y0 where p: "parse_movie_with_year s = (t0, y0)" by (cases "parse_movie_with_year s")
  show "1 \<le> y'" "y' \<le> 9999"
  proof -
    have "1 \<le> y' \<and> y' \<le> 9999"
    proof (cases "truthy y0")
      case True
      with a p have "y0 = Some y'" by (simp add: parse_title_with_year_def)
      with movie_year_range[of s t0 y'] p True show ?thesis by (simp add: truthy_def)
    next
      case False
      with a p obtain m where "re_search trailing_year_pattern s = Some m"
          "y' = int_of_digits (group1 s m)"
        by (auto simp: parse_title_with_year_def split: option.splits)
      with trailing_year_range[of s m] show ?thesis by simp
    qed
    then show "1 \<le> y'" "y' \<le> 9999" by simp_all
  qed
  assume f: "\<not> truthy (snd (parse_movie_with_year s))"
  with a p obtain m where "re_search trailing_year_pattern s = Some m"
      "y' = int_of_digits (group1 s m)"
    by (auto simp: parse_title_with_year_def split: option.splits)
  with trailing_year_range[of s m] show "1900 \<le> y'" "y' \<le> 2099" by simp_all
qed

lemma insort_key_after:
  "(\<And>y. y \<in> set ys \<Longrightarrow> f y < f x) \<Longrightarrow> insort_key f x (ys @ zs) = ys @ insort_key f x zs"
proof (induction ys)
  case Nil
  then show ?case by simp
next
  case (Cons y ys)
  from Cons.prems[of y] have "\<not> f x \<le> f y" by simp
  moreover have "insort_key f x (ys @ zs) = ys @ insort_key f x zs"
    using Cons.prems by (intro Cons.IH) simp
  ultimately show ?case by simp
qed

lemma sort_key_least_first:
  assumes "\<And>x. x \<in> set xs \<Longrightarrow> c \<le> f x"
  shows "sort_key f xs = filter (\<lambda>x. f x = c) xs @ sort_key f (filter (\<lambda>x. f x \<noteq> c) xs)"
  using assms
proof (induction xs)
  case Nil
  then show ?case by simp
next
  case (Cons x xs)
  let ?E = "filter (\<lambda>x. f x = c) xs"
  let ?S = "sort_key f (filter (\<lambda>x. f x \<noteq> c) xs)"
  have ih: "sort_key f xs = ?E @ ?S" using Cons by simp
  show ?case
  proof (cases "f x = c")
    case True
    have "insort_key f x (?E @ ?S) = x # ?E @ ?S"
      using True Cons.prems by (intro insort_is_Cons) auto
    with True ih show ?thesis by simp
  next
    case False
    with Cons.prems[of x] have "c < f x" by simp
    then have "insort_key f x (?E @ ?S) = ?E @ insort_key f x ?S"
      by (intro insort_key_after) simp
    with False ih show ?thesis by simp
  qed
qed

lemma first_index:
  "x \<in> set xs \<Longrightarrow> length (takeWhile (\<lambda>y. y \<noteq> x) xs) < length xs
     \<and> xs ! length (takeWhile (\<lambda>y. y \<noteq> x) xs) = x"
  by (induction xs) auto

lemma ranking_exact_first:
  assumes "scan field title 0 rs = Inr ms" and "dedup {} ms = Inr us"
  shows "take 5 (sort_by_score us)
       = take 5 (filter (\<lambda>x. score_of x = 1) us @ sort_by_score (filter (\<lambda>x. score_of x \<noteq> 1) us))"
proof -
  have le: "- 1 \<le> - score_of x" if "x \<in> set us" for x
    using scan_scores[OF assms(1), of x] dedup_subset[OF assms(2)] that by auto
  from sort_key_least_first[of us "- 1" "\<lambda>x. - score_of x", OF le]
  show ?thesis by (simp add: sort_by_score_def)
qed

lemma exact_rank_position:
  assumes "m \<in> set us" and "score_of m = 1"
    and "out = take 5 (filter (\<lambda>x. score_of x = 1) us @ rest)"
    and "exact_rank us m < 5"
  shows "exact_rank us m < length out \<and> out ! exact_rank us m = m"
proof -
  let ?E = "filter (\<lambda>x. score_of x = 1) us"
  from assms(1,2) have "m \<in> set ?E" by simp
  from first_index[OF this] have k: "exact_rank us m < length ?E" "?E ! exact_rank us m = m"
    by (simp_all add: exact_rank_def)
  with assms(3,4) show ?thesis by (simp add: nth_append)
qed

section \<open>Properties of the parsers and the classifier\<close>

text \<open>
  C3: for an input that ends in a parenthesized group of four digits, both parsers return
  those digits as the year, whatever they are, and the text before them as the title.
  \<open>parse_movie_with_year\<close> does, and so does \<open>parse_title_with_year\<close> when the digits
  are not all zero (lemma \<open>parenthesized_year\<close>). But \<open>parse_title_with_year\<close> tests
  the year of \<open>parse_movie_with_year\<close> with \<open>if year:\<close>, which is false for the year 0,
  so for \<open>Movie (0000)\<close> it falls through to the bare-year pattern and returns the whole
  input with no year, where \<open>parse_movie_with_year\<close> returns the title \<open>Movie\<close> and the
  year 0.
\<close>

theorem parse_title_with_year_drops_year_zero:
  "parse_movie_with_year ''Movie (0000)'' = (''Movie'', Some 0)
   \<and> parse_title_with_year ''Movie (0000)'' = (''Movie (0000)'', None)"
  by code_simp

text \<open>
  C5: \<open>is_specific_title_query\<close> returns false for an empty or blank input. The guard
  \<open>if not search\<close> runs before the input is stripped, so it catches the empty string
  only: a string of one space passes it, matches no pattern, has no words, and the final
  test \<open>word_count <= 6\<close> returns true.
\<close>

theorem is_specific_title_query_blank:
  "is_specific_title_query [] = False \<and> is_specific_title_query '' '' = True
   \<and> split (strip (lower '' '')) = []"
  by code_simp

text \<open>
  C6: every discovery pattern, the decade tokens included, matches at word boundaries
  only. In \<open>abc1980sxyz\<close> the token \<open>1980s\<close> has a word character on either side, yet the
  decade pattern is the one discovery pattern that is found there, and the query is
  classified as a discovery query.
\<close>

theorem decade_token_inside_word:
  "is_specific_title_query ''abc1980sxyz'' = False
   \<and> filter (\<lambda>pattern. found pattern ''abc1980sxyz'') discovery_patterns = [last discovery_patterns]
   \<and> re_search (last discovery_patterns) ''abc1980sxyz'' = Some (3, 8, None)
   \<and> \<not> word_boundary ''abc1980sxyz'' 3 \<and> \<not> word_boundary ''abc1980sxyz'' 8"
  by code_simp

text \<open>
  C4, as the code has it: a year that either parser returns is the value of four decimal
  digits, between 0 and 9999; the pattern of the parenthesized year has no restriction on
  the century. A year that \<open>parse_title_with_year\<close> returns for an input in which
  \<open>parse_movie_with_year\<close> finds no parenthesized year is between 1900 and 2099.
\<close>

theorem parsed_year_range:
  "(parse_movie_with_year s = (t, Some y) \<longrightarrow> 0 \<le> y \<and> y \<le> 9999)
   \<and> (parse_title_with_year s = (t', Some y') \<longrightarrow>
        0 \<le> y' \<and> y' \<le> 9999
        \<and> (snd (parse_movie_with_year s) = None \<longrightarrow> 1900 \<le> y' \<and> y' \<le> 2099))"
  using title_year_range[of s t y t' y'] by (auto simp: truthy_def)

theorem parsed_year_range_witness:
  "parse_movie_with_year ''Movie (1234)'' = (''Movie'', Some 1234)
   \<and> (0::int) \<le> 1234 \<and> (1234::int) \<le> 9999
   \<and> parse_title_with_year ''The Matrix 1999'' = (''The Matrix'', Some 1999)
   \<and> snd (parse_movie_with_year ''The Matrix 1999'') = None
   \<and> (1900::int) \<le> 1999 \<and> (1999::int) \<le> 2099"
proof -
  have m: "parse_movie_with_year ''Movie (1234)'' = (''Movie'', Some 1234)"
    by code_simp
  have t: "parse_title_with_year ''The Matrix 1999'' = (''The Matrix'', Some 1999)"
    by code_simp
  have f: "snd (parse_movie_with_year ''The Matrix 1999'') = None"
    by code_simp
  from parsed_year_range[of "''Movie (1234)''" "''Movie''" 1234 "[]" 0]
    parsed_year_range[of "''The Matrix 1999''" "[]" 0 "''The Matrix''" 1999] m t f
  show ?thesis by simp
qed

text \<open>
  The claim C4 as stated, that a returned year lies between 1900 and 2099, fails for a
  parenthesized year of another century.
\<close>

theorem parsed_year_outside_centuries:
  "parse_movie_with_year ''Movie (1234)'' = (''Movie'', Some 1234)
   \<and> parse_title_with_year ''Movie (1234)'' = (''Movie'', Some 1234)
   \<and> \<not> (1900 \<le> (1234::int) \<and> (1234::int) \<le> 2099)"
  by code_simp

text \<open>
  C10: the parser of user queries can return an empty title. For an input that is one or
  more whitespace characters followed by a four-digit year of century 19 or 20,
  \<open>parse_title_with_year\<close> returns the empty title and that year; for the same year with
  nothing before it, it returns the year's text as the title and no year.
\<close>

theorem blank_prefix_year:
  assumes "ws \<noteq> []" and "\<forall>c \<in> set ws. is_space c"
    and "c1 = CHR ''1'' \<and> c2 = CHR ''9'' \<or> c1 = CHR ''2'' \<and> c2 = CHR ''0''"
    and "is_digit d1" and "is_digit d2"
  shows "parse_title_with_year (ws @ [c1, c2, d1, d2]) = ([], Some (int_of_digits [c1, c2, d1, d2]))
       \<and> parse_title_with_year [c1, c2, d1, d2] = ([c1, c2, d1, d2], None)"
  using assms spaces_then_year[of ws c1 c2 d1 d2] bare_year[of c1 c2 d1 d2] by blast

theorem blank_prefix_year_witness:
  "is_space CHR '' '' \<and> is_digit CHR ''9''
   \<and> parse_title_with_year '' 1999'' = ([], Some 1999)
   \<and> parse_title_with_year ''1999'' = (''1999'', None)"
proof -
  have "is_space CHR '' ''" "is_digit CHR ''9''" by (simp_all add: is_space_def is_digit_def)
  with blank_prefix_year[of "'' ''" "CHR ''1''" "CHR ''9''" "CHR ''9''" "CHR ''9''"]
  show ?thesis by (simp add: int_of_digits_def digit_val_def)
qed


section \<open>Properties of the fuzzy matcher\<close>

text \<open>
  C1, as the code has it. The two parsers, \<open>is_specific_title_query\<close> and
  \<open>detect_user_intent\<close> have no error branch: every operation in them is defined on
  every string. \<open>search_movie\<close> and \<open>search_tv\<close> return a list for every query title
  and every list of results in which each result has a name that is absent or a string and
  an \<open>id\<close> that is present and can be hashed. The lookup of the name has a default; the
  lookup \<open>m["id"]\<close> has none.
\<close>

theorem search_total:
  "((\<forall>r \<in> set rs. name_ok ''title'' r \<and> id_ok r) \<longrightarrow> (\<exists>out. search_movie title rs = Inr out))
   \<and> ((\<forall>r \<in> set rs. name_ok ''name'' r \<and> id_ok r) \<longrightarrow> (\<exists>out. search_tv title rs = Inr out))"
  unfolding search_movie_def search_tv_def
  using match_results_total[of rs "''title''" title] match_results_total[of rs "''name''" title]
  by blast

theorem search_total_witness:
  "name_ok ''title'' [(''id'', PInt 7)] \<and> id_ok [(''id'', PInt 7)]
   \<and> name_ok ''title'' [(''id'', PInt 8), (''title'', PStr ''The Matrix'')]
   \<and> id_ok [(''id'', PInt 8), (''title'', PStr ''The Matrix'')]
   \<and> (\<exists>out. search_movie ''Matrix'' [[(''id'', PInt 7)],
          [(''id'', PInt 8), (''title'', PStr ''The Matrix'')]] = Inr out)
   \<and> name_ok ''name'' [(''id'', PStr ''x'')] \<and> id_ok [(''id'', PStr ''x'')]
   \<and> (\<exists>out. search_tv ''Dark'' [[(''id'', PStr ''x'')]] = Inr out)"
proof -
  have ok: "name_ok ''title'' [(''id'', PInt 7)]" "id_ok [(''id'', PInt 7)]"
    "name_ok ''title'' [(''id'', PInt 8), (''title'', PStr ''The Matrix'')]"
    "id_ok [(''id'', PInt 8), (''title'', PStr ''The Matrix'')]"
    "name_ok ''name'' [(''id'', PStr ''x'')]" "id_ok [(''id'', PStr ''x'')]"
    by (simp_all add: name_ok_def id_ok_def id_key_def dict_item_def)
  from ok search_total[of "[[(''id'', PInt 7)], [(''id'', PInt 8), (''title'', PStr ''The Matrix'')]]" "''Matrix''"]
    search_total[of "[[(''id'', PStr ''x'')]]" "''Dark''"]
  show ?thesis by simp
qed

text \<open>
  The claim C1 as stated, that the lookup of the identifier cannot fail, is false for a
  kept result with no \<open>id\<close>.
\<close>

theorem search_missing_id_raises:
  "search_movie ''Matrix'' [[(''title'', PStr ''Matrix'')]] = Inl KeyError
   \<and> search_tv ''Dark'' [[(''name'', PStr ''Dark'')]] = Inl KeyError"
  by code_simp

text \<open>
  C7, as the code has it: for a query title that is not empty, a result with no name is
  scored as the empty name, gets the score 0 and is not kept, so that every returned result
  has a name. (For the empty query title the empty name is an exact match.)
\<close>

theorem missing_name_filtered:
  assumes "title \<noteq> []"
  shows "(map_of res field = None \<longrightarrow>
            body field title index res = Inr (dict_set res ''_score'' (PFloat 0), False))
       \<and> (search_movie title rs = Inr out \<longrightarrow> (\<forall>m \<in> set out. map_of m ''title'' \<noteq> None))
       \<and> (search_tv title rs = Inr out' \<longrightarrow> (\<forall>m \<in> set out'. map_of m ''name'' \<noteq> None))"
proof -
  have b: "body fld title i r = Inr (dict_set r ''_score'' (PFloat 0), False)"
    if "map_of r fld = None" for fld i r
    using that assms by (simp add: body_def dict_get_def lower_def judge_empty_name)
  have res: "map_of m fld \<noteq> None"
    if "match_results fld title cs = Inr res" "m \<in> set res" "fld \<noteq> ''_score''" for fld cs res m
  proof -
    from match_results_members[OF that(1,2)] obtain r i where bi: "body fld title i r = Inr (m, True)"
      by auto
    with b[of r fld i] have "map_of r fld \<noteq> None" by auto
    moreover from body_Inr[OF bi] obtain q where "m = dict_set r ''_score'' (PFloat q)" by auto
    ultimately show ?thesis using that(3) by (simp add: map_of_dict_set)
  qed
  from b res show ?thesis
    unfolding search_movie_def search_tv_def by auto
qed

theorem missing_name_filtered_witness:
  "''Matrix'' \<noteq> [] \<and> map_of [(''id'', PInt 7)] ''title'' = None
   \<and> body ''title'' ''Matrix'' 0 [(''id'', PInt 7)]
       = Inr (dict_set [(''id'', PInt 7)] ''_score'' (PFloat 0), False)
   \<and> search_movie ''Matrix'' [[(''id'', PInt 7)], [(''id'', PInt 8), (''title'', PStr ''matrix'')]]
       = Inr [[(''id'', PInt 8), (''title'', PStr ''matrix''), (''_score'', PFloat 1)]]
   \<and> map_of [(''id'', PInt 8), (''title'', PStr ''matrix''), (''_score'', PFloat 1)] ''title'' \<noteq> None
   \<and> search_tv ''Matrix'' [[(''id'', PInt 7)], [(''id'', PInt 8), (''name'', PStr ''matrix'')]]
       = Inr [[(''id'', PInt 8), (''name'', PStr ''matrix''), (''_score'', PFloat 1)]]
   \<and> map_of [(''id'', PInt 8), (''name'', PStr ''matrix''), (''_score'', PFloat 1)] ''name'' \<noteq> None"
proof -
  have e1: "search_movie ''Matrix'' [[(''id'', PInt 7)], [(''id'', PInt 8), (''title'', PStr ''matrix'')]]
       = Inr [[(''id'', PInt 8), (''title'', PStr ''matrix''), (''_score'', PFloat 1)]]"
    by code_simp
  have e2: "search_tv ''Matrix'' [[(''id'', PInt 7)], [(''id'', PInt 8), (''name'', PStr ''matrix'')]]
       = Inr [[(''id'', PInt 8), (''name'', PStr ''matrix''), (''_score'', PFloat 1)]]"
    by code_simp
  from e1 e2 missing_name_filtered[of "''Matrix''" "[(''id'', PInt 7)]" "''title''" 0
      "[[(''id'', PInt 7)], [(''id'', PInt 8), (''title'', PStr ''matrix'')]]"
      "[[(''id'', PInt 8), (''title'', PStr ''matrix''), (''_score'', PFloat 1)]]"
      "[[(''id'', PInt 8), (''name'', PStr ''matrix''), (''_score'', PFloat 1)]]"]
  show ?thesis by simp
qed

text \<open>
  The claim C7 as stated, for every query title: with the empty title, a result with no
  name is kept with the score 1.
\<close>

theorem missing_name_exact_for_empty_title:
  "search_movie [] [[(''id'', PInt 7)]] = Inr [[(''id'', PInt 7), (''_score'', PFloat 1)]]
   \<and> map_of [(''id'', PInt 7)] ''title'' = None"
  by code_simp

text \<open>
  C9, as the code has it: the score is stored in the result under \<open>_score\<close> and stays
  there; every returned result carries it, and it lies between 0 and 1.
\<close>

theorem returned_score_kept:
  assumes "search_movie title rs = Inr out \<or> search_tv title rs = Inr out"
  shows "\<forall>m \<in> set out. \<exists>q. map_of m ''_score'' = Some (PFloat q) \<and> 0 \<le> q \<and> q \<le> 1"
proof
  fix m
  assume m: "m \<in> set out"
  from assms obtain field where "match_results field title rs = Inr out"
    unfolding search_movie_def search_tv_def by blast
  from match_results_members[OF this m] obtain r i where "body field title i r = Inr (m, True)"
    by auto
  from body_Inr[OF this] obtain x q where "judge title i x = (q, True)"
      "m = dict_set r ''_score'' (PFloat q)" by auto
  with judge_range[of title i x q True]
  show "\<exists>q. map_of m ''_score'' = Some (PFloat q) \<and> 0 \<le> q \<and> q \<le> 1"
    by (auto simp: map_of_dict_set)
qed

theorem returned_score_kept_witness:
  "search_movie ''Matrix'' [[(''id'', PInt 1), (''title'', PStr ''Matrixx'')]]
     = Inr [[(''id'', PInt 1), (''title'', PStr ''Matrixx''), (''_score'', PFloat (12 / 13))]]
   \<and> (\<exists>q. map_of [(''id'', PInt 1), (''title'', PStr ''Matrixx''), (''_score'', PFloat (12 / 13))]
            ''_score'' = Some (PFloat q) \<and> 0 \<le> q \<and> q \<le> 1)"
proof -
  have e: "search_movie ''Matrix'' [[(''id'', PInt 1), (''title'', PStr ''Matrixx'')]]
     = Inr [[(''id'', PInt 1), (''title'', PStr ''Matrixx''), (''_score'', PFloat (12 / 13))]]"
    by code_simp
  from returned_score_kept[of "''Matrix''" "[[(''id'', PInt 1), (''title'', PStr ''Matrixx'')]]"
      "[[(''id'', PInt 1), (''title'', PStr ''Matrixx''), (''_score'', PFloat (12 / 13))]]"] e
  show ?thesis by simp
qed

text \<open>
  The claim C9 as stated, that the returned results do not carry the score, is false.
\<close>

theorem returned_record_has_score:
  "search_tv ''Dark'' [[(''id'', PInt 5), (''name'', PStr ''Dark Matter'')]]
     = Inr [[(''id'', PInt 5), (''name'', PStr ''Dark Matter''), (''_score'', PFloat (8 / 15))]]"
  by code_simp

text \<open>
  C8: the returned list has at most 5 entries, no two of them with the same identifier,
  each of them the first kept result with its identifier, and it is ordered by score,
  highest first, results with equal scores in the provider's order. Here \<open>ms\<close> is the
  list \<open>matches\<close>: the results that pass the filter, in the provider's order (\<open>bs\<close> is
  what the loop body gives for each result in turn).
\<close>

theorem ranking_shape:
  assumes "field = ''title'' \<and> search_movie title rs = Inr out
         \<or> field = ''name'' \<and> search_tv title rs = Inr out"
  shows "length out \<le> 5 \<and> distinct (map id_key out)
       \<and> (\<exists>ms bs. scan field title 0 rs = Inr ms
            \<and> length bs = length rs
            \<and> (\<forall>i < length rs. body field title i (rs ! i) = Inr (bs ! i))
            \<and> ms = map fst (filter snd bs)
            \<and> (\<forall>m \<in> set out. find (\<lambda>x. id_key x = id_key m) ms = Some m)
            \<and> sorted_wrt (ranked_before ms) out)"
proof -
  from assms have "match_results field title rs = Inr out"
    unfolding search_movie_def search_tv_def by blast
  then show ?thesis by (rule ranking_shape_field)
qed

theorem ranking_shape_witness:
  "search_movie ''Matrix''
     [[(''id'', PInt 1), (''title'', PStr ''Matrixx'')],
      [(''id'', PInt 2), (''title'', PStr ''matrix'')],
      [(''id'', PInt 1), (''title'', PStr ''Matrix'')],
      [(''id'', PInt 3), (''title'', PStr ''MATRIX'')],
      [(''id'', PInt 4), (''title'', PStr ''zzz'')]]
   = Inr [[(''id'', PInt 2), (''title'', PStr ''matrix''), (''_score'', PFloat 1)],
          [(''id'', PInt 3), (''title'', PStr ''MATRIX''), (''_score'', PFloat 1)],
          [(''id'', PInt 1), (''title'', PStr ''Matrixx''), (''_score'', PFloat (12 / 13))]]
   \<and> distinct (map id_key
          [[(''id'', PInt 2), (''title'', PStr ''matrix''), (''_score'', PFloat 1)],
           [(''id'', PInt 3), (''title'', PStr ''MATRIX''), (''_score'', PFloat 1)],
           [(''id'', PInt 1), (''title'', PStr ''Matrixx''), (''_score'', PFloat (12 / 13))]])
   \<and> (\<exists>ms. scan ''title'' ''Matrix'' 0
          [[(''id'', PInt 1), (''title'', PStr ''Matrixx'')],
           [(''id'', PInt 2), (''title'', PStr ''matrix'')],
           [(''id'', PInt 1), (''title'', PStr ''Matrix'')],
           [(''id'', PInt 3), (''title'', PStr ''MATRIX'')],
           [(''id'', PInt 4), (''title'', PStr ''zzz'')]] = Inr ms
        \<and> sorted_wrt (ranked_before ms)
          [[(''id'', PInt 2), (''title'', PStr ''matrix''), (''_score'', PFloat 1)],
           [(''id'', PInt 3), (''title'', PStr ''MATRIX''), (''_score'', PFloat 1)],
           [(''id'', PInt 1), (''title'', PStr ''Matrixx''), (''_score'', PFloat (12 / 13))]])"
proof -
  let ?rs = "[[(''id'', PInt 1), (''title'', PStr ''Matrixx'')],
      [(''id'', PInt 2), (''title'', PStr ''matrix'')],
      [(''id'', PInt 1), (''title'', PStr ''Matrix'')],
      [(''id'', PInt 3), (''title'', PStr ''MATRIX'')],
      [(''id'', PInt 4), (''title'', PStr ''zzz'')]]"
  let ?out = "[[(''id'', PInt 2), (''title'', PStr ''matrix''), (''_score'', PFloat 1)],
          [(''id'', PInt 3), (''title'', PStr ''MATRIX''), (''_score'', PFloat 1)],
          [(''id'', PInt 1), (''title'', PStr ''Matrixx''), (''_score'', PFloat (12 / 13))]]"
  have e: "search_movie ''Matrix'' ?rs = Inr ?out"
    by code_simp
  then have "''title'' = ''title'' \<and> search_movie ''Matrix'' ?rs = Inr ?out
      \<or> ''title'' = ''name'' \<and> search_tv ''Matrix'' ?rs = Inr ?out"
    by (intro disjI1 conjI refl)
  from ranking_shape[OF this] e show ?thesis by blast
qed

text \<open>
  C2, as the code has it. A result whose name equals the query title, case ignored, gets
  the score 1 and passes the filter; no result in \<open>matches\<close> has a higher score, and
  only such exact matches have the score 1. The returned list is the first five of: the
  deduplicated results \<open>us\<close> of score 1, in the provider's order, followed by the other
  deduplicated results by descending score. So a result with an exact name that is the
  first in \<open>matches\<close> with its identifier survives deduplication and is returned, ahead
  of every result that is not an exact match, at the place that is the number of
  surviving exact matches before it, if that number is below 5; it is the first returned
  entry when no exact match before it survives, wherever it stood in the provider's order.
\<close>

theorem exact_match_ranking:
  assumes "field = ''title'' \<and> search_movie title rs = Inr out
         \<or> field = ''name'' \<and> search_tv title rs = Inr out"
    and "i < length rs"
    and "py_lower (dict_get (rs ! i) field (PStr [])) = Inr (lower title)"
    and "m = dict_set (rs ! i) ''_score'' (PFloat 1)"
  shows "body field title i (rs ! i) = Inr (m, True)
       \<and> (\<exists>ms us. scan field title 0 rs = Inr ms \<and> dedup {} ms = Inr us
            \<and> m \<in> set ms \<and> (\<forall>x \<in> set ms. score_of x \<le> 1)
            \<and> (\<forall>x \<in> set ms. score_of x = 1 \<longrightarrow>
                 (\<exists>j < length rs. py_lower (dict_get (rs ! j) field (PStr [])) = Inr (lower title)
                    \<and> x = dict_set (rs ! j) ''_score'' (PFloat 1)))
            \<and> out = take 5 (filter (\<lambda>x. score_of x = 1) us
                             @ sort_by_score (filter (\<lambda>x. score_of x \<noteq> 1) us))
            \<and> (find (\<lambda>x. id_key x = id_key m) ms = Some m
                 \<longrightarrow> m \<in> set us \<and> out \<noteq> [] \<and> score_of (hd out) = 1
                    \<and> (exact_rank us m < 5
                         \<longrightarrow> exact_rank us m < length out \<and> out ! exact_rank us m = m))
            \<and> (find (\<lambda>x. score_of x = 1) us = Some m \<longrightarrow> out \<noteq> [] \<and> hd out = m))"
proof -
  from assms(1) have mr: "match_results field title rs = Inr out"
    unfolding search_movie_def search_tv_def by blast
  from match_results_parts[OF mr] obtain ms us where s: "scan field title 0 rs = Inr ms"
      and d: "dedup {} ms = Inr us" and out: "out = take 5 (sort_by_score us)"
    by blast
  have b: "body field title i (rs ! i) = Inr (m, True)"
    using assms(3,4) by (simp add: body_def judge_exact)
  from scan_keeps[OF s assms(2)] b have mem: "m \<in> set ms" by simp
  have sc: "score_of m = 1" using assms(4) by (simp add: score_of_dict_set)
  have le: "\<forall>x \<in> set ms. score_of x \<le> 1"
    using scan_scores[OF s] by blast
  have shape: "out = take 5 (filter (\<lambda>x. score_of x = 1) us
                             @ sort_by_score (filter (\<lambda>x. score_of x \<noteq> 1) us))"
    unfolding out by (rule ranking_exact_first[OF s d])
  have first: "m \<in> set us \<and> out \<noteq> [] \<and> score_of (hd out) = 1
      \<and> (exact_rank us m < 5 \<longrightarrow> exact_rank us m < length out \<and> out ! exact_rank us m = m)"
    if "find (\<lambda>x. id_key x = id_key m) ms = Some m"
  proof -
    from dedup_keeps_first[OF d that] have mu: "m \<in> set us" by simp
    from find_exists[OF mu, of "\<lambda>x. score_of x = 1"] sc
    obtain y where y: "find (\<lambda>x. score_of x = 1) us = Some y" "score_of y = 1" by auto
    from top_of_ranking[OF s d y(1)] y(2) have "out \<noteq> [] \<and> score_of (hd out) = 1"
      unfolding out by simp
    with mu exact_rank_position[OF mu sc shape] show ?thesis by blast
  qed
  have top: "out \<noteq> [] \<and> hd out = m" if "find (\<lambda>x. score_of x = 1) us = Some m"
    using top_of_ranking[OF s d that] unfolding out .
  have ex: "\<exists>j < length rs. py_lower (dict_get (rs ! j) field (PStr [])) = Inr (lower title)
      \<and> x = dict_set (rs ! j) ''_score'' (PFloat 1)"
    if "x \<in> set ms" "score_of x = 1" for x
  proof -
    from scan_members[OF s that(1)] obtain r i' where r: "r \<in> set rs"
        and bx: "body field title i' r = Inr (x, True)" by auto
    from body_Inr[OF bx] obtain xl q where xl: "py_lower (dict_get r field (PStr [])) = Inr xl"
        and j: "judge title i' xl = (q, True)" and x: "x = dict_set r ''_score'' (PFloat q)"
      by auto
    from x that(2) have q: "q = 1" by (simp add: score_of_dict_set)
    with judge_strict[OF j] have "xl = lower title" by auto
    moreover from r obtain j where "j < length rs" "rs ! j = r" by (auto simp: in_set_conv_nth)
    ultimately show ?thesis using xl x q by auto
  qed
  from b s d mem le ex shape first top show ?thesis by blast
qed

theorem exact_match_ranking_witness:
  "search_movie ''Matrix''
     [[(''id'', PInt 1), (''title'', PStr ''Matrixx'')],
      [(''id'', PInt 2), (''title'', PStr ''MATRIX'')],
      [(''id'', PInt 3), (''title'', PStr ''matrix'')]]
   = Inr [[(''id'', PInt 2), (''title'', PStr ''MATRIX''), (''_score'', PFloat 1)],
          [(''id'', PInt 3), (''title'', PStr ''matrix''), (''_score'', PFloat 1)],
          [(''id'', PInt 1), (''title'', PStr ''Matrixx''), (''_score'', PFloat (12 / 13))]]
   \<and> py_lower (dict_get [(''id'', PInt 2), (''title'', PStr ''MATRIX'')] ''title'' (PStr []))
       = Inr (lower ''Matrix'')
   \<and> py_lower (dict_get [(''id'', PInt 3), (''title'', PStr ''matrix'')] ''title'' (PStr []))
       = Inr (lower ''Matrix'')
   \<and> body ''title'' ''Matrix'' 2 [(''id'', PInt 3), (''title'', PStr ''matrix'')]
       = Inr ([(''id'', PInt 3), (''title'', PStr ''matrix''), (''_score'', PFloat 1)], True)
   \<and> hd [[(''id'', PInt 2), (''title'', PStr ''MATRIX''), (''_score'', PFloat 1)],
          [(''id'', PInt 3), (''title'', PStr ''matrix''), (''_score'', PFloat 1)],
          [(''id'', PInt 1), (''title'', PStr ''Matrixx''), (''_score'', PFloat (12 / 13))]]
       = [(''id'', PInt 2), (''title'', PStr ''MATRIX''), (''_score'', PFloat 1)]
   \<and> [[(''id'', PInt 2), (''title'', PStr ''MATRIX''), (''_score'', PFloat 1)],
       [(''id'', PInt 3), (''title'', PStr ''matrix''), (''_score'', PFloat 1)],
       [(''id'', PInt 1), (''title'', PStr ''Matrixx''), (''_score'', PFloat (12 / 13))]] ! 1
       = [(''id'', PInt 3), (''title'', PStr ''matrix''), (''_score'', PFloat 1)]"
proof -
  let ?rs = "[[(''id'', PInt 1), (''title'', PStr ''Matrixx'')],
      [(''id'', PInt 2), (''title'', PStr ''MATRIX'')],
      [(''id'', PInt 3), (''title'', PStr ''matrix'')]]"
  let ?f = "[(''id'', PInt 1), (''title'', PStr ''Matrixx''), (''_score'', PFloat (12 / 13))]"
  let ?m1 = "[(''id'', PInt 2), (''title'', PStr ''MATRIX''), (''_score'', PFloat 1)]"
  let ?m2 = "[(''id'', PInt 3), (''title'', PStr ''matrix''), (''_score'', PFloat 1)]"
  let ?out = "[?m1, ?m2, ?f]"
  let ?ms = "[?f, ?m1, ?m2]"
  have e: "search_movie ''Matrix'' ?rs = Inr ?out"
    by code_simp
  then have h1: "''title'' = ''title'' \<and> search_movie ''Matrix'' ?rs = Inr ?out
      \<or> ''title'' = ''name'' \<and> search_tv ''Matrix'' ?rs = Inr ?out"
    by (intro disjI1 conjI refl)
  have i1: "(1::nat) < length ?rs" and i2: "(2::nat) < length ?rs" by simp_all
  have n1: "py_lower (dict_get (?rs ! 1) ''title'' (PStr [])) = Inr (lower ''Matrix'')"
    by code_simp
  have n2: "py_lower (dict_get (?rs ! 2) ''title'' (PStr [])) = Inr (lower ''Matrix'')"
    by code_simp
  have a1: "?m1 = dict_set (?rs ! 1) ''_score'' (PFloat 1)" by simp
  have a2: "?m2 = dict_set (?rs ! 2) ''_score'' (PFloat 1)" by simp
  have sc: "scan ''title'' ''Matrix'' 0 ?rs = Inr ?ms"
    by code_simp
  have dd: "dedup {} ?ms = Inr ?ms"
    by code_simp
  have fs: "find (\<lambda>x. score_of x = 1) ?ms = Some ?m1"
    by code_simp
  have fi: "find (\<lambda>x. id_key x = id_key ?m2) ?ms = Some ?m2"
    by code_simp
  have er: "exact_rank ?ms ?m2 = 1"
    by code_simp
  from exact_match_ranking[OF h1 i1 n1 a1] obtain ms us where
      s1: "scan ''title'' ''Matrix'' 0 ?rs = Inr ms" and d1: "dedup {} ms = Inr us"
      and top: "find (\<lambda>x. score_of x = 1) us = Some ?m1 \<longrightarrow> ?out \<noteq> [] \<and> hd ?out = ?m1"
    by blast
  from s1[unfolded sc] have "ms = ?ms" by (simp only: sum.inject)
  with d1 have "dedup {} ?ms = Inr us" by (simp only:)
  from this[unfolded dd] have "us = ?ms" by (simp only: sum.inject)
  with top fs have hd1: "hd ?out = ?m1" by blast
  from exact_match_ranking[OF h1 i2 n2 a2] obtain ms' us' where
      b2: "body ''title'' ''Matrix'' 2 (?rs ! 2) = Inr (?m2, True)"
      and s2: "scan ''title'' ''Matrix'' 0 ?rs = Inr ms'" and d2: "dedup {} ms' = Inr us'"
      and pos: "find (\<lambda>x. id_key x = id_key ?m2) ms' = Some ?m2
          \<longrightarrow> ?m2 \<in> set us' \<and> ?out \<noteq> [] \<and> score_of (hd ?out) = 1
            \<and> (exact_rank us' ?m2 < 5
                 \<longrightarrow> exact_rank us' ?m2 < length ?out \<and> ?out ! exact_rank us' ?m2 = ?m2)"
    by blast
  from s2[unfolded sc] have m': "ms' = ?ms" by (simp only: sum.inject)
  with d2 have "dedup {} ?ms = Inr us'" by (simp only:)
  from this[unfolded dd] have u': "us' = ?ms" by (simp only: sum.inject)
  from pos[unfolded m' u' er] fi have "?out ! 1 = ?m2" by simp
  with e n1 n2 b2 hd1 show ?thesis by simp
qed

text \<open>
  The claim C2 as stated, that an exact match always appears first: an exact match whose
  identifier was seen on an earlier kept result is removed by deduplication and does not
  appear at all.
\<close>

theorem exact_match_dropped_by_dedup:
  "search_movie ''Matrix''
     [[(''id'', PInt 1), (''title'', PStr ''Matrixx'')],
      [(''id'', PInt 1), (''title'', PStr ''Matrix'')]]
   = Inr [[(''id'', PInt 1), (''title'', PStr ''Matrixx''), (''_score'', PFloat (12 / 13))]]
   \<and> py_lower (dict_get [(''id'', PInt 1), (''title'', PStr ''Matrix'')] ''title'' (PStr []))
       = Inr (lower ''Matrix'')"
  by code_simp

end
